theory Spec2Isabelle
  imports Complex_Main "HOL-Library.Sublist" "HOL-Library.AList"
begin

section \<open>The bipartite-matching engine of 02-matching-project\<close>

text \<open>
  A shallow embedding of \<^verbatim>\<open>src/models/entities.py\<close>,
  \<^verbatim>\<open>src/algorithms/hungarian.py\<close> and \<^verbatim>\<open>src/algorithms/gale_shapley.py\<close>.

  Conventions of the embedding.
  \<^item> A Python \<^verbatim>\<open>float\<close> is a \<^typ>\<open>real\<close>: arithmetic is exact, so rounding,
    overflow and NaN of IEEE doubles are outside the model.
  \<^item> A Python \<^verbatim>\<open>dict\<close> is an association list in insertion order; a dict has
    no duplicate keys, which appears as \<open>distinct (map fst d)\<close> where a property needs it.
  \<^item> An attribute value (\<^verbatim>\<open>Any\<close>) is one of the shapes of the data model: absent
    (\<^verbatim>\<open>None\<close>), a number (\<^verbatim>\<open>int\<close>, \<^verbatim>\<open>float\<close> and \<^verbatim>\<open>bool\<close>, which Python
    compares numerically), a text, a list of texts.
  \<^item> \<^verbatim>\<open>execution_time\<close> is read from the wall clock and is left out of the result
    record.
\<close>

subsection \<open>entities.py\<close>

datatype EntityType = USER | ITEM | JOB | CANDIDATE | MENTOR | MENTEE

fun EntityType_value :: "EntityType \<Rightarrow> string" where
  "EntityType_value USER = ''user''"
| "EntityType_value ITEM = ''item''"
| "EntityType_value JOB = ''job''"
| "EntityType_value CANDIDATE = ''candidate''"
| "EntityType_value MENTOR = ''mentor''"
| "EntityType_value MENTEE = ''mentee''"

datatype pyval = PNone | PNum real | PStr string | PList "string list"

record Entity =
  ent_id :: string
  entity_type :: EntityType
  attributes :: "(string \<times> pyval) list"
  preferences :: "string list"
  constraints :: "(string \<times> pyval) list"

definition get_attribute :: "Entity \<Rightarrow> string \<Rightarrow> pyval" where
  \<comment> \<open>\<^verbatim>\<open>self.attributes.get(key, None)\<close>\<close>
  "get_attribute e key = (case map_of (attributes e) key of None \<Rightarrow> PNone | Some v \<Rightarrow> v)"

definition has_attribute :: "Entity \<Rightarrow> string \<Rightarrow> bool" where
  \<comment> \<open>\<^verbatim>\<open>key in self.attributes\<close>\<close>
  "has_attribute e key = (map_of (attributes e) key \<noteq> None)"

record Criteria =
  weights :: "(string \<times> real) list"
  required_attributes :: "string list"
  optional_attributes :: "string list"
  min_score :: real
  max_matches :: int

definition Criteria_post_init :: "Criteria \<Rightarrow> Criteria" where
  \<comment> \<open>\<^verbatim>\<open>__post_init__\<close>: normalise the weights when their sum is positive\<close>
  "Criteria_post_init c =
     (let total_weight = sum_list (map snd (weights c))
      in if total_weight > 0
         then c\<lparr>weights := map (\<lambda>(k, v). (k, v / total_weight)) (weights c)\<rparr>
         else c)"

definition Criteria_new ::
  "(string \<times> real) list \<Rightarrow> string list \<Rightarrow> string list \<Rightarrow> real \<Rightarrow> int \<Rightarrow> Criteria" where
  \<comment> \<open>the dataclass constructor, which runs \<^verbatim>\<open>__post_init__\<close>\<close>
  "Criteria_new ws req opt ms mm =
     Criteria_post_init \<lparr>weights = ws, required_attributes = req,
       optional_attributes = opt, min_score = ms, max_matches = mm\<rparr>"

definition weights_get :: "Criteria \<Rightarrow> string \<Rightarrow> real" where
  \<comment> \<open>\<^verbatim>\<open>self.weights.get(attribute, 0.0)\<close>\<close>
  "weights_get c attribute = (case map_of (weights c) attribute of None \<Rightarrow> 0 | Some w \<Rightarrow> w)"

definition calculate_weighted_score :: "Criteria \<Rightarrow> (string \<times> real) list \<Rightarrow> real" where
  "calculate_weighted_score c scores =
     foldl (\<lambda>total_score (attribute, score). total_score + weights_get c attribute * score)
       0 scores"

datatype detail = DStr string | DBool bool

record Match =
  entity_a_id :: string
  entity_b_id :: string
  score :: real
  details :: "(string \<times> detail) list"
  matched_at :: "string option"

record MatchingResult =
  matches :: "Match list"
  unmatched_entities :: "string list"
  total_score :: real

subsection \<open>The two similarity scorers\<close>

definition lower_char :: "char \<Rightarrow> char" where
  \<comment> \<open>\<^verbatim>\<open>str.lower\<close> on the ASCII letters\<close>
  "lower_char ch =
     (if 65 \<le> (of_char ch :: nat) \<and> (of_char ch :: nat) \<le> 90
      then char_of ((of_char ch :: nat) + 32) else ch)"

definition lower :: "string \<Rightarrow> string" where
  "lower s = map lower_char s"

fun compare_attribute :: "pyval \<Rightarrow> pyval \<Rightarrow> string \<Rightarrow> real" where
  "compare_attribute PNone value_b attribute = 0"
| "compare_attribute value_a PNone attribute = 0"
| "compare_attribute (PNum x) (PNum y) attribute = max 0 (1 - \<bar>x - y\<bar> / 100)"
| "compare_attribute (PStr s) (PStr t) attribute =
     (if lower s = lower t then 1
      else if sublist (lower s) (lower t) \<or> sublist (lower t) (lower s) then 1 / 2
      else 0)"
| "compare_attribute (PList xs) (PList ys) attribute =
     (let set_a = set (map lower xs); set_b = set (map lower ys)
      in if set_a = {} \<or> set_b = {} then 0
         else (let intersection = card (set_a \<inter> set_b); union = card (set_a \<union> set_b)
               in if union > 0 then real intersection / real union else 0))"
| "compare_attribute value_a value_b attribute = (if value_a = value_b then 1 else 0)"

definition missing_required :: "Entity \<Rightarrow> Entity \<Rightarrow> Criteria \<Rightarrow> bool" where
  \<comment> \<open>the loop over \<^verbatim>\<open>criteria.required_attributes\<close>, the same in both matchers:
      True when it returns 0.0\<close>
  "missing_required entity_a entity_b criteria =
     (\<exists>req_attr \<in> set (required_attributes criteria).
        \<not> has_attribute entity_a req_attr \<or> \<not> has_attribute entity_b req_attr)"

definition hungarian_scores :: "Entity \<Rightarrow> Entity \<Rightarrow> Criteria \<Rightarrow> (string \<times> real) list" where
  "hungarian_scores entity_a entity_b criteria =
     map (\<lambda>attribute. (attribute,
            compare_attribute (get_attribute entity_a attribute)
              (get_attribute entity_b attribute) attribute))
       (map fst (weights criteria))"

definition hungarian_calculate_similarity :: "Entity \<Rightarrow> Entity \<Rightarrow> Criteria \<Rightarrow> real" where
  "hungarian_calculate_similarity entity_a entity_b criteria =
     (let scores = hungarian_scores entity_a entity_b criteria
      in if missing_required entity_a entity_b criteria then 0
         else (let weighted_score = calculate_weighted_score criteria scores
               in if weighted_score < min_score criteria then 0 else weighted_score))"

fun truthy :: "pyval \<Rightarrow> bool" where
  "truthy PNone = False"
| "truthy (PNum x) = (x \<noteq> 0)"
| "truthy (PStr s) = (s \<noteq> [])"
| "truthy (PList xs) = (xs \<noteq> [])"

fun is_number :: "pyval \<Rightarrow> bool" where
  "is_number (PNum x) = True"
| "is_number v = False"

fun num_of :: "pyval \<Rightarrow> real" where
  "num_of (PNum x) = x"
| "num_of v = 0"

definition gs_compare :: "pyval \<Rightarrow> pyval \<Rightarrow> real" where
  \<comment> \<open>the body of the attribute loop of \<^verbatim>\<open>GaleShapleyMatcher._calculate_similarity\<close>\<close>
  "gs_compare value_a value_b =
     (if value_a = value_b then 1
      else if is_number value_a \<and> is_number value_b
           then max 0 (1 - \<bar>num_of value_a - num_of value_b\<bar> / 100)
      else if truthy value_a \<and> truthy value_b then 1 / 2 else 0)"

definition gs_scores :: "Entity \<Rightarrow> Entity \<Rightarrow> Criteria \<Rightarrow> (string \<times> real) list" where
  "gs_scores entity_a entity_b criteria =
     map (\<lambda>attribute. (attribute,
            gs_compare (get_attribute entity_a attribute) (get_attribute entity_b attribute)))
       (map fst (weights criteria))"

definition gs_calculate_similarity :: "Entity \<Rightarrow> Entity \<Rightarrow> Criteria \<Rightarrow> real" where
  "gs_calculate_similarity entity_a entity_b criteria =
     (let scores = gs_scores entity_a entity_b criteria
      in if missing_required entity_a entity_b criteria then 0
         else calculate_weighted_score criteria scores)"

subsection \<open>gale_shapley.py\<close>

datatype pyerr = KeyError | ValueError | IndexError

definition preference_list :: "Entity \<Rightarrow> Entity list \<Rightarrow> Criteria \<Rightarrow> string list" where
  \<comment> \<open>the scores of one entity against the other side, sorted by descending score;
      \<^verbatim>\<open>list.sort\<close> is stable, also with \<^verbatim>\<open>reverse=True\<close>\<close>
  "preference_list e others criteria =
     (let scores = map (\<lambda>other. (ent_id other, gs_calculate_similarity e other criteria)) others
      in map fst (sort_key (\<lambda>x. - snd x) scores))"

definition build_preference_lists ::
  "Entity list \<Rightarrow> Entity list \<Rightarrow> Criteria \<Rightarrow> (string \<times> string list) list" where
  "build_preference_lists entities_a entities_b criteria =
     (let prefs =
            foldl (\<lambda>prefs entity_a.
                     AList.update (ent_id entity_a)
                       (preference_list entity_a entities_b criteria) prefs)
              [] entities_a
      in foldl (\<lambda>prefs entity_b.
                  AList.update (ent_id entity_b)
                    (preference_list entity_b entities_a criteria) prefs)
           prefs entities_b)"

fun list_index :: "'a list \<Rightarrow> 'a \<Rightarrow> nat option" where
  \<comment> \<open>\<^verbatim>\<open>list.index\<close>; None is its ValueError\<close>
  "list_index [] x = None"
| "list_index (y # ys) x = (if y = x then Some 0 else map_option Suc (list_index ys x))"

record gs_state =
  free_proposers :: "string list"
  engagements :: "(string \<times> string) list"
  proposer_index :: "(string \<times> nat) list"
  proposals :: nat

text \<open>
  The field \<open>proposals\<close> is not in the source: it counts the iterations of the loop that
  reach \<^verbatim>\<open>proposer_index[proposer_id] += 1\<close>, so that the number of proposals can be
  stated.
\<close>

definition gs_step :: "(string \<times> string list) list \<Rightarrow> gs_state \<Rightarrow> pyerr + gs_state" where
  \<comment> \<open>one iteration of the body of \<^verbatim>\<open>while free_proposers\<close>\<close>
  "gs_step prefs st =
     (case free_proposers st of
        [] \<Rightarrow> Inl IndexError
      | proposer_id # rest \<Rightarrow>
          (case map_of prefs proposer_id of
             None \<Rightarrow> Inl KeyError
           | Some proposer_prefs \<Rightarrow>
               (case map_of (proposer_index st) proposer_id of
                  None \<Rightarrow> Inl KeyError
                | Some i \<Rightarrow>
                    if i \<ge> length proposer_prefs
                    then Inr (st\<lparr>free_proposers := rest\<rparr>)
                    else
                      (let acceptor_id = proposer_prefs ! i;
                           st1 = st\<lparr>proposer_index :=
                                      AList.update proposer_id (i + 1) (proposer_index st),
                                    proposals := proposals st + 1\<rparr>
                       in case map_of (engagements st) acceptor_id of
                            None \<Rightarrow>
                              Inr (st1\<lparr>engagements :=
                                         AList.update acceptor_id proposer_id (engagements st),
                                       free_proposers := rest\<rparr>)
                          | Some current_proposer \<Rightarrow>
                              (case map_of prefs acceptor_id of
                                 None \<Rightarrow> Inl KeyError
                               | Some acceptor_prefs \<Rightarrow>
                                   (case (list_index acceptor_prefs proposer_id,
                                          list_index acceptor_prefs current_proposer) of
                                      (Some rank_new, Some rank_cur) \<Rightarrow>
                                        if rank_new < rank_cur
                                        then Inr (st1\<lparr>engagements :=
                                                   AList.update acceptor_id proposer_id
                                                     (engagements st),
                                                 free_proposers := rest @ [current_proposer]\<rparr>)
                                        else Inr st1
                                    | _ \<Rightarrow> Inl ValueError))))))"

definition gs_measure :: "(string \<times> string list) list \<Rightarrow> gs_state \<Rightarrow> nat" where
  \<comment> \<open>proposals still possible, plus the length of the queue\<close>
  "gs_measure prefs st =
     sum_list (map (\<lambda>(p, i). length (case map_of prefs p of None \<Rightarrow> [] | Some l \<Rightarrow> l) - i)
                 (proposer_index st))
     + length (free_proposers st)"

function gs_loop :: "(string \<times> string list) list \<Rightarrow> gs_state \<Rightarrow> pyerr + gs_state" where
  "gs_loop prefs st =
     (if free_proposers st = [] then Inr st
      else (case gs_step prefs st of
              Inl e \<Rightarrow> Inl e
            | Inr st' \<Rightarrow> gs_loop prefs st'))"
  by pat_completeness auto
termination
proof (relation "measure (\<lambda>(prefs, st). gs_measure prefs st)")
  show "wf (measure (\<lambda>(prefs, st). gs_measure prefs st))"
    by simp
next
  fix prefs :: "(string \<times> string list) list" and st st' :: gs_state
  assume ne: "free_proposers st \<noteq> []" and step: "gs_step prefs st = Inr st'"
  have upd: "sum_list (map (\<lambda>(p, i). length (case map_of prefs p of None \<Rightarrow> [] | Some l \<Rightarrow> l) - i)
               (AList.update q (Suc j) idx))
             < sum_list (map (\<lambda>(p, i). length (case map_of prefs p of None \<Rightarrow> [] | Some l \<Rightarrow> l) - i)
                 idx)"
    if "map_of idx q = Some j" "map_of prefs q = Some l" "j < length l"
    for idx :: "(string \<times> nat) list" and q j l
    using that by (induction idx) (auto split: if_splits)
  from ne step have "gs_measure prefs st' < gs_measure prefs st"
    by (auto simp: gs_step_def gs_measure_def Let_def dest: upd
          split: list.splits option.splits if_splits)
  then show "((prefs, st'), (prefs, st))
               \<in> measure (\<lambda>(prefs, st). gs_measure prefs st)"
    by simp
qed

fun gs_build_matches ::
  "(string \<times> Entity) list \<Rightarrow> Criteria \<Rightarrow> (string \<times> string) list
     \<Rightarrow> Match list \<times> real \<Rightarrow> pyerr + (Match list \<times> real)" where
  \<comment> \<open>the loop over \<^verbatim>\<open>engagements.items()\<close>, with the accumulators
      \<^verbatim>\<open>matches\<close> and \<^verbatim>\<open>total_score\<close>\<close>
  "gs_build_matches entity_map criteria [] acc = Inr acc"
| "gs_build_matches entity_map criteria ((acceptor_id, proposer_id) # engs) (ms, tot) =
     (case map_of entity_map proposer_id of
        None \<Rightarrow> Inl KeyError
      | Some entity_a \<Rightarrow>
          (case map_of entity_map acceptor_id of
             None \<Rightarrow> Inl KeyError
           | Some entity_b \<Rightarrow>
               (let sc = gs_calculate_similarity entity_a entity_b criteria
                in if sc \<ge> min_score criteria
                   then gs_build_matches entity_map criteria engs
                          (ms @ [\<lparr>entity_a_id = proposer_id, entity_b_id = acceptor_id,
                                  score = sc,
                                  details = [(''algorithm'', DStr ''Gale-Shapley Algorithm''),
                                             (''stable'', DBool True)],
                                  matched_at = None\<rparr>],
                           tot + sc)
                   else gs_build_matches entity_map criteria engs (ms, tot))))"

definition gs_initial_state :: "Entity list \<Rightarrow> gs_state" where
  "gs_initial_state entities_a =
     (let free = map ent_id entities_a
      in \<lparr>free_proposers = free, engagements = [],
          proposer_index = foldl (\<lambda>d pid. AList.update pid 0 d) [] free,
          proposals = 0\<rparr>)"

definition gs_converged :: "Entity list \<Rightarrow> Entity list \<Rightarrow> Criteria \<Rightarrow> pyerr + gs_state" where
  \<comment> \<open>the state in which the deferred-acceptance loop of \<^verbatim>\<open>match\<close> ends\<close>
  "gs_converged entities_a entities_b criteria =
     gs_loop (build_preference_lists entities_a entities_b criteria)
       (gs_initial_state entities_a)"

definition gs_match :: "Entity list \<Rightarrow> Entity list \<Rightarrow> Criteria \<Rightarrow> pyerr + MatchingResult" where
  "gs_match entities_a entities_b criteria =
     (if entities_a = [] \<or> entities_b = []
      then Inr \<lparr>matches = [], unmatched_entities = map ent_id (entities_a @ entities_b),
                total_score = 0\<rparr>
      else
        (let entity_map = foldl (\<lambda>d e. AList.update (ent_id e) e d) []
                            (entities_a @ entities_b)
         in case gs_converged entities_a entities_b criteria of
              Inl e \<Rightarrow> Inl e
            | Inr st \<Rightarrow>
                (case gs_build_matches entity_map criteria (engagements st) ([], 0) of
                   Inl e \<Rightarrow> Inl e
                 | Inr (ms, tot) \<Rightarrow>
                     (let matched_ids = set (map entity_a_id ms) \<union> set (map entity_b_id ms);
                          unmatched = filter (\<lambda>i. i \<notin> matched_ids)
                                        (map ent_id (entities_a @ entities_b))
                      in Inr \<lparr>matches = ms, unmatched_entities = unmatched,
                               total_score = tot\<rparr>))))"

text \<open>
  The Match that \<open>gs_build_matches\<close> appends for the engagement \<open>qp\<close> (acceptor id,
  proposer id), for the statements about the list of matches.
\<close>

definition gs_mk_match :: "Criteria \<Rightarrow> (string \<times> Entity) list \<Rightarrow> string \<times> string \<Rightarrow> Match" where
  "gs_mk_match c em qp =
     \<lparr>entity_a_id = snd qp, entity_b_id = fst qp,
      score = gs_calculate_similarity (the (map_of em (snd qp))) (the (map_of em (fst qp))) c,
      details = [(''algorithm'', DStr ''Gale-Shapley Algorithm''), (''stable'', DBool True)],
      matched_at = None\<rparr>"

subsection \<open>hungarian.py\<close>

text \<open>
  An entry of the padded cost matrix is a finite number or \<^verbatim>\<open>np.inf\<close>.
\<close>

datatype cost = Fin real | PInf

definition calculate_cost_matrix ::
  "Entity list \<Rightarrow> Entity list \<Rightarrow> Criteria \<Rightarrow> real list list" where
  "calculate_cost_matrix entities_a entities_b criteria =
     map (\<lambda>entity_a.
            map (\<lambda>entity_b. - hungarian_calculate_similarity entity_a entity_b criteria)
              entities_b)
       entities_a"

definition pad_cost_matrix :: "real list list \<Rightarrow> nat \<Rightarrow> nat \<Rightarrow> cost list list" where
  \<comment> \<open>\<^verbatim>\<open>np.hstack\<close> with \<open>n - m\<close> columns of \<^verbatim>\<open>np.inf\<close>, or \<^verbatim>\<open>np.vstack\<close> with
      \<open>m - n\<close> rows of it\<close>
  "pad_cost_matrix cost_matrix n m =
     (if n > m then map (\<lambda>row. map Fin row @ replicate (n - m) PInf) cost_matrix
      else if m > n then map (map Fin) cost_matrix @ replicate (m - n) (replicate m PInf)
      else map (map Fin) cost_matrix)"

fun extract_matches ::
  "Entity list \<Rightarrow> Entity list \<Rightarrow> Criteria \<Rightarrow> cost list list \<Rightarrow> (nat \<times> nat) list
     \<Rightarrow> Match list \<times> nat set \<times> nat set \<times> real
     \<Rightarrow> Match list \<times> nat set \<times> nat set \<times> real" where
  \<comment> \<open>the loop over \<^verbatim>\<open>zip(row_indices, col_indices)\<close>, with the accumulators
      \<^verbatim>\<open>matches\<close>, \<^verbatim>\<open>matched_a\<close>, \<^verbatim>\<open>matched_b\<close> and \<^verbatim>\<open>total_score\<close>;
      the negation of \<^verbatim>\<open>np.inf\<close> is not positive\<close>
  "extract_matches entities_a entities_b criteria cm [] acc = acc"
| "extract_matches entities_a entities_b criteria cm ((i, j) # ps) (ms, matched_a, matched_b, tot) =
     (if i < length entities_a \<and> j < length entities_b
      then (case cm ! i ! j of
              PInf \<Rightarrow> extract_matches entities_a entities_b criteria cm ps
                        (ms, matched_a, matched_b, tot)
            | Fin x \<Rightarrow>
                (let sc = - x
                 in if sc > 0 \<and> sc \<ge> min_score criteria
                    then extract_matches entities_a entities_b criteria cm ps
                           (ms @ [\<lparr>entity_a_id = ent_id (entities_a ! i),
                                   entity_b_id = ent_id (entities_b ! j),
                                   score = sc,
                                   details =
                                     [(''algorithm'', DStr ''Hungarian Algorithm''),
                                      (''entity_a_type'',
                                       DStr (EntityType_value (entity_type (entities_a ! i)))),
                                      (''entity_b_type'',
                                       DStr (EntityType_value (entity_type (entities_b ! j))))],
                                   matched_at = None\<rparr>],
                            insert i matched_a, insert j matched_b, tot + sc)
                    else extract_matches entities_a entities_b criteria cm ps
                           (ms, matched_a, matched_b, tot)))
      else extract_matches entities_a entities_b criteria cm ps
             (ms, matched_a, matched_b, tot))"

definition unmatched_ids :: "Entity list \<Rightarrow> nat set \<Rightarrow> string list" where
  \<comment> \<open>\<^verbatim>\<open>[entity.id for i, entity in enumerate(entities) if i not in matched]\<close>\<close>
  "unmatched_ids entities matched =
     map (\<lambda>(i, entity). ent_id entity) (filter (\<lambda>(i, entity). i \<notin> matched) (enumerate 0 entities))"

text \<open>
  \<^verbatim>\<open>scipy.optimize.linear_sum_assignment\<close> is a library function, not code of the
  repository: \<open>hungarian_match\<close> takes it as the parameter \<open>lsa\<close>, which returns the two
  index arrays or raises.
\<close>

definition hungarian_match ::
  "(cost list list \<Rightarrow> pyerr + nat list \<times> nat list)
     \<Rightarrow> Entity list \<Rightarrow> Entity list \<Rightarrow> Criteria \<Rightarrow> pyerr + MatchingResult" where
  "hungarian_match lsa entities_a entities_b criteria =
     (if entities_a = [] \<or> entities_b = []
      then Inr \<lparr>matches = [], unmatched_entities = map ent_id (entities_a @ entities_b),
                total_score = 0\<rparr>
      else
        (let cost_matrix = calculate_cost_matrix entities_a entities_b criteria;
             n = length entities_a;
             m = length entities_b;
             cost_matrix = pad_cost_matrix cost_matrix n m
         in case lsa cost_matrix of
              Inl e \<Rightarrow> Inl e
            | Inr (row_indices, col_indices) \<Rightarrow>
                (case extract_matches entities_a entities_b criteria cost_matrix
                        (zip row_indices col_indices) ([], {}, {}, 0) of
                   (ms, matched_a, matched_b, tot) \<Rightarrow>
                     Inr \<lparr>matches = ms,
                          unmatched_entities =
                            unmatched_ids entities_a matched_a @ unmatched_ids entities_b matched_b,
                          total_score = tot\<rparr>)))"

subsection \<open>What a minimum-cost perfect assignment is\<close>

text \<open>
  The contract of the solver, for the statements below: on a square matrix of size \<open>N\<close>
  the two index arrays pair every row with a column, each column once, and no permutation
  of the columns costs less. A sum with an infinite term is infinite.
\<close>

fun cost_add :: "cost \<Rightarrow> cost \<Rightarrow> cost" where
  "cost_add (Fin x) (Fin y) = Fin (x + y)"
| "cost_add a b = PInf"

fun cost_le :: "cost \<Rightarrow> cost \<Rightarrow> bool" where
  "cost_le a PInf = True"
| "cost_le PInf (Fin y) = False"
| "cost_le (Fin x) (Fin y) = (x \<le> y)"

definition assignment_cost :: "cost list list \<Rightarrow> (nat \<times> nat) list \<Rightarrow> cost" where
  "assignment_cost cm asg = foldr (\<lambda>(i, j) acc. cost_add (cm ! i ! j) acc) asg (Fin 0)"

primrec inserts :: "'a \<Rightarrow> 'a list \<Rightarrow> 'a list list" where
  "inserts x [] = [[x]]"
| "inserts x (y # ys) = (x # y # ys) # map ((#) y) (inserts x ys)"

primrec perms :: "'a list \<Rightarrow> 'a list list" where
  "perms [] = [[]]"
| "perms (x # xs) = concat (map (inserts x) (perms xs))"

definition perfect_assignment :: "nat \<Rightarrow> nat list \<Rightarrow> nat list \<Rightarrow> bool" where
  "perfect_assignment N row_indices col_indices \<longleftrightarrow>
     length row_indices = N \<and> length col_indices = N \<and>
     set row_indices = {..<N} \<and> set col_indices = {..<N}"

definition lsa_optimal :: "cost list list \<Rightarrow> nat list \<Rightarrow> nat list \<Rightarrow> bool" where
  "lsa_optimal cm row_indices col_indices \<longleftrightarrow>
     perfect_assignment (length cm) row_indices col_indices \<and>
     (\<forall>p \<in> set (perms [0..<length cm]).
        cost_le (assignment_cost cm (zip row_indices col_indices))
          (assignment_cost cm (zip [0..<length cm] p)))"

subsection \<open>Blocking pairs\<close>

text \<open>
  The partner of a proposer is the acceptor whose engagement names it. An entity ranks
  \<open>x\<close> above \<open>y\<close> when \<open>x\<close> comes first in its preference list. A proposer and an
  acceptor that are not engaged to each other block the engagements when each ranks the
  other above its partner; an entity without a partner prefers every entity of its list.
\<close>

definition partner_of :: "(string \<times> string) list \<Rightarrow> string \<Rightarrow> string option" where
  "partner_of engs p = map_option fst (find (\<lambda>(q, p'). p' = p) engs)"

definition ranks_above :: "string list \<Rightarrow> string \<Rightarrow> string \<Rightarrow> bool" where
  "ranks_above l x y =
     (case (list_index l x, list_index l y) of (Some i, Some j) \<Rightarrow> i < j | _ \<Rightarrow> False)"

definition proposer_prefers ::
  "(string \<times> string list) list \<Rightarrow> (string \<times> string) list \<Rightarrow> string \<Rightarrow> string \<Rightarrow> bool" where
  "proposer_prefers prefs engs p q =
     (case map_of prefs p of
        None \<Rightarrow> False
      | Some l \<Rightarrow> (case partner_of engs p of
                     None \<Rightarrow> q \<in> set l
                   | Some q' \<Rightarrow> ranks_above l q q'))"

definition acceptor_prefers ::
  "(string \<times> string list) list \<Rightarrow> (string \<times> string) list \<Rightarrow> string \<Rightarrow> string \<Rightarrow> bool" where
  "acceptor_prefers prefs engs q p =
     (case map_of prefs q of
        None \<Rightarrow> False
      | Some l \<Rightarrow> (case map_of engs q of
                     None \<Rightarrow> p \<in> set l
                   | Some p' \<Rightarrow> ranks_above l p p'))"

definition blocking_pair ::
  "(string \<times> string list) list \<Rightarrow> (string \<times> string) list \<Rightarrow> string \<Rightarrow> string \<Rightarrow> bool" where
  "blocking_pair prefs engs p q \<longleftrightarrow>
     map_of engs q \<noteq> Some p \<and> proposer_prefers prefs engs p q \<and> acceptor_prefers prefs engs q p"

subsection \<open>The invariant of the deferred-acceptance loop\<close>

text \<open>
  \<open>gs_wf\<close>: the proposers \<open>P\<close> are distinct, every proposer has a preference list
  without repetition, and every id on the list of a proposer has a preference list that
  holds this proposer. \<open>gs_inv\<close>: the queue holds distinct
  proposers; every proposer has an index, within its list; an engaged proposer is not
  queued and is engaged to the acceptor it proposed to last; a proposer that is neither
  queued nor engaged has exhausted its list; every acceptor a proposer has already
  proposed to is engaged to a proposer it ranks at least as high; the counter is the sum
  of the indices.
\<close>

definition prefs_of :: "(string \<times> string list) list \<Rightarrow> string \<Rightarrow> string list" where
  "prefs_of prefs x = (case map_of prefs x of None \<Rightarrow> [] | Some l \<Rightarrow> l)"

definition gs_wf :: "(string \<times> string list) list \<Rightarrow> string list \<Rightarrow> bool" where
  "gs_wf prefs P \<longleftrightarrow>
     distinct P \<and>
     (\<forall>p \<in> set P. \<exists>l. map_of prefs p = Some l \<and> distinct l \<and>
        (\<forall>q \<in> set l. \<exists>lq. map_of prefs q = Some lq \<and> p \<in> set lq))"

definition gs_inv :: "(string \<times> string list) list \<Rightarrow> string list \<Rightarrow> gs_state \<Rightarrow> bool" where
  "gs_inv prefs P st \<longleftrightarrow>
     distinct (free_proposers st) \<and> set (free_proposers st) \<subseteq> set P \<and>
     map fst (proposer_index st) = P \<and>
     (\<forall>p i. map_of (proposer_index st) p = Some i \<longrightarrow> i \<le> length (prefs_of prefs p)) \<and>
     (\<forall>q p. map_of (engagements st) q = Some p \<longrightarrow>
        p \<in> set P \<and> p \<notin> set (free_proposers st) \<and>
        (\<exists>i. map_of (proposer_index st) p = Some (Suc i) \<and> i < length (prefs_of prefs p) \<and>
             prefs_of prefs p ! i = q)) \<and>
     (\<forall>p \<in> set P. p \<notin> set (free_proposers st) \<longrightarrow>
        (\<exists>q. map_of (engagements st) q = Some p) \<or>
        map_of (proposer_index st) p = Some (length (prefs_of prefs p))) \<and>
     (\<forall>p i j. map_of (proposer_index st) p = Some i \<longrightarrow> j < i \<longrightarrow>
        (\<exists>p' r r'. map_of (engagements st) (prefs_of prefs p ! j) = Some p' \<and>
           list_index (prefs_of prefs (prefs_of prefs p ! j)) p' = Some r' \<and>
           list_index (prefs_of prefs (prefs_of prefs p ! j)) p = Some r \<and> r' \<le> r)) \<and>
     proposals st = sum_list (map snd (proposer_index st)) \<and>
     distinct (map fst (engagements st))"

text \<open>
  \<open>gs_cross\<close>: when two proposers have each proposed to the other's id, the proposal
  was the last one of both. With ids shared by the two sides a proposer's list can hold
  ids of proposers; the count of the proposals rests on this.
\<close>

definition gs_cross :: "(string \<times> string list) list \<Rightarrow> gs_state \<Rightarrow> bool" where
  "gs_cross prefs st \<longleftrightarrow>
     (\<forall>u z i iz j k.
        map_of (proposer_index st) u = Some i \<longrightarrow> map_of (proposer_index st) z = Some iz \<longrightarrow>
        j < i \<longrightarrow> k < iz \<longrightarrow> prefs_of prefs u ! j = z \<longrightarrow> prefs_of prefs z ! k = u \<longrightarrow>
        i = Suc j)"

subsection \<open>Binary64 arithmetic of the scorers\<close>

text \<open>
  The scores are Python floats, IEEE 754 binary64 numbers. \<open>fl\<close> rounds a real to the
  nearest number with a 53-bit significand, ties to even (no overflow and no subnormal
  numbers: the exponent is unbounded). The definitions with suffix \<open>_f64\<close> are
  \<^verbatim>\<open>__post_init__\<close>, \<^verbatim>\<open>calculate_weighted_score\<close> and the two
  \<^verbatim>\<open>_calculate_similarity\<close> with every float operation of the weights and of the
  aggregate rounded: the sum of the weights, each division \<^verbatim>\<open>v / total_weight\<close>, each
  product \<^verbatim>\<open>weight * score\<close> and each addition \<^verbatim>\<open>total_score += ...\<close>. The
  attribute scores are taken from the exact definitions.
\<close>

definition round_half_even :: "real \<Rightarrow> int" where
  "round_half_even x =
     (let f = \<lfloor>x\<rfloor>; d = x - of_int f
      in if d < 1 / 2 then f else if 1 / 2 < d then f + 1 else if even f then f else f + 1)"

function exponent_up :: "real \<Rightarrow> int" where
  "exponent_up x = (if 2 \<le> x then exponent_up (x / 2) + 1 else 0)"
  by pat_completeness auto
termination
proof (relation "measure (\<lambda>x. nat \<lfloor>x\<rfloor>)")
  show "wf (measure (\<lambda>x. nat \<lfloor>x\<rfloor>))" by simp
next
  fix x :: real assume x: "2 \<le> x"
  have "x / 2 \<le> x - 1" using x by simp
  then have "\<lfloor>x / 2\<rfloor> \<le> \<lfloor>x - 1\<rfloor>" by (rule floor_mono)
  moreover have "1 \<le> \<lfloor>x\<rfloor>" using x by linarith
  ultimately show "(x / 2, x) \<in> measure (\<lambda>x. nat \<lfloor>x\<rfloor>)" by simp
qed

definition binary_exponent :: "real \<Rightarrow> int" where
  "binary_exponent x =
     (if 1 \<le> x then exponent_up x
      else (let k = exponent_up (1 / x) in if 2 ^ nat k = 1 / x then - k else - (k + 1)))"

definition fl :: "real \<Rightarrow> real" where
  "fl x = (if x = 0 then 0
           else (let e = binary_exponent \<bar>x\<bar> - 52;
                     ulp = (if 0 \<le> e then 2 ^ nat e else 1 / 2 ^ nat (- e))
                 in (if x < 0 then - 1 else 1) * of_int (round_half_even (\<bar>x\<bar> / ulp)) * ulp))"

definition Criteria_post_init_f64 :: "Criteria \<Rightarrow> Criteria" where
  "Criteria_post_init_f64 c =
     (let total_weight = foldl (\<lambda>s w. fl (s + w)) 0 (map snd (weights c))
      in if total_weight > 0
         then c\<lparr>weights := map (\<lambda>(k, v). (k, fl (v / total_weight))) (weights c)\<rparr>
         else c)"

definition calculate_weighted_score_f64 :: "Criteria \<Rightarrow> (string \<times> real) list \<Rightarrow> real" where
  "calculate_weighted_score_f64 c scores =
     foldl (\<lambda>total_score (attribute, score).
              fl (total_score + fl (weights_get c attribute * score)))
       0 scores"

definition hungarian_calculate_similarity_f64 :: "Entity \<Rightarrow> Entity \<Rightarrow> Criteria \<Rightarrow> real" where
  "hungarian_calculate_similarity_f64 entity_a entity_b criteria =
     (let scores = hungarian_scores entity_a entity_b criteria
      in if missing_required entity_a entity_b criteria then 0
         else (let weighted_score = calculate_weighted_score_f64 criteria scores
               in if weighted_score < min_score criteria then 0 else weighted_score))"

definition gs_calculate_similarity_f64 :: "Entity \<Rightarrow> Entity \<Rightarrow> Criteria \<Rightarrow> real" where
  "gs_calculate_similarity_f64 entity_a entity_b criteria =
     (let scores = gs_scores entity_a entity_b criteria
      in if missing_required entity_a entity_b criteria then 0
         else calculate_weighted_score_f64 criteria scores)"

subsection \<open>Example inputs\<close>

definition Entity_new :: "string \<Rightarrow> EntityType \<Rightarrow> (string \<times> pyval) list \<Rightarrow> Entity" where
  \<comment> \<open>the dataclass constructor with \<^verbatim>\<open>preferences\<close> and \<^verbatim>\<open>constraints\<close> left out\<close>
  "Entity_new i t attrs =
     \<lparr>ent_id = i, entity_type = t, attributes = attrs, preferences = [], constraints = []\<rparr>"

definition ex_a :: "Entity list" where
  "ex_a = [Entity_new ''a0'' MENTOR [(''x'', PNum 5)], Entity_new ''a1'' MENTOR [(''x'', PNum 60)]]"

definition ex_b :: "Entity list" where
  "ex_b = [Entity_new ''b0'' MENTEE [(''x'', PNum 45)], Entity_new ''b1'' MENTEE [(''x'', PNum 10)]]"

definition ex_c :: Criteria where
  "ex_c = Criteria_new [(''x'', 1)] [] [] (1 / 2) 1"

definition ex_c_high :: Criteria where
  "ex_c_high = Criteria_new [(''x'', 1)] [] [] (9 / 10) 1"

definition ex3_a :: "Entity list" where
  "ex3_a = [Entity_new ''a0'' MENTOR [(''x'', PNum 5)], Entity_new ''a1'' MENTOR [(''x'', PNum 60)],
            Entity_new ''a2'' MENTOR [(''x'', PNum 44)]]"

definition ex1_b :: "Entity list" where
  "ex1_b = [Entity_new ''b0'' MENTEE [(''x'', PNum 45)]]"

text \<open>Lists whose ids are unique within each side and occur on both sides.\<close>

definition sh_a :: "Entity list" where
  "sh_a = [Entity_new ''1'' USER [(''x'', PNum 0)], Entity_new ''2'' USER [(''x'', PNum 100)]]"

definition sh_b :: "Entity list" where
  "sh_b = [Entity_new ''1'' ITEM [(''x'', PNum 100)], Entity_new ''2'' ITEM [(''x'', PNum 90)]]"

definition sh1_a :: "Entity list" where
  "sh1_a = [Entity_new ''1'' USER [(''x'', PNum 0)]]"

definition sh1_b :: "Entity list" where
  "sh1_b = [Entity_new ''1'' ITEM [(''x'', PNum 100)]]"

text \<open>
  Integer weights 1, 6, 3, 3 (their sum 13 is exact) and two entities with four equal
  attributes; \<open>fx_w\<close> are the normalised weights as binary64 numbers.
\<close>

definition fx_c :: Criteria where
  "fx_c = Criteria_post_init_f64
            \<lparr>weights = [(''a'', 1), (''b'', 6), (''c'', 3), (''d'', 3)],
             required_attributes = [], optional_attributes = [], min_score = 0,
             max_matches = 1\<rparr>"

definition fx_a :: Entity where
  "fx_a = Entity_new ''u'' USER
            [(''a'', PStr ''k''), (''b'', PStr ''k''), (''c'', PStr ''k''), (''d'', PStr ''k'')]"

definition fx_b :: Entity where
  "fx_b = Entity_new ''v'' ITEM
            [(''a'', PStr ''k''), (''b'', PStr ''k''), (''c'', PStr ''k''), (''d'', PStr ''k'')]"

definition fx_w :: "(string \<times> real) list" where
  "fx_w = [(''a'', 1385722962267845 / 18014398509481984),
           (''b'', 4157168886803535 / 9007199254740992),
           (''c'', 4157168886803535 / 18014398509481984),
           (''d'', 4157168886803535 / 18014398509481984)]"

definition ex_padded :: "cost list list" where
  "ex_padded = pad_cost_matrix (calculate_cost_matrix ex3_a ex1_b ex_c) 3 1"

definition ex_padded2 :: "cost list list" where
  "ex_padded2 = pad_cost_matrix (calculate_cost_matrix ex_a ex1_b ex_c) 2 1"

section \<open>Properties\<close>

subsection \<open>Construction of a Criteria\<close>

lemma sum_list_normalised:
  "sum_list (map snd (map (\<lambda>(k, v). (k, v / t)) ws)) = sum_list (map snd ws) / (t::real)"
  by (induction ws) (auto simp: add_divide_distrib)

lemma nonneg_sum_zero:
  "\<forall>(k, v) \<in> set ws. (0::real) \<le> v \<Longrightarrow> sum_list (map snd ws) = 0
     \<Longrightarrow> \<forall>(k, v) \<in> set ws. v = 0"
proof (induction ws)
  case Nil
  then show ?case by simp
next
  case (Cons p ws)
  obtain k v where p: "p = (k, v)" by (cases p)
  from Cons.prems have nn: "0 \<le> v" "\<forall>(k, v) \<in> set ws. 0 \<le> v" by (auto simp: p)
  then have "0 \<le> sum_list (map snd ws)" by (intro sum_list_nonneg) fastforce
  with Cons.prems(2) nn have "v = 0" "sum_list (map snd ws) = 0" by (auto simp: p)
  with Cons.IH nn show ?case by (auto simp: p)
qed

text \<open>
  C7. A Criteria constructed with non-negative weights of positive sum holds each weight
  divided by that sum, and these sum to 1; when the sum is 0 the weights are left as
  they are, all 0. (Exact arithmetic: the floating tolerance of the claim is 0 here.)
\<close>

theorem weights_normalised:
  assumes "\<forall>(k, v) \<in> set ws. 0 \<le> v"
  shows "(0 < sum_list (map snd ws) \<longrightarrow>
            weights (Criteria_new ws req opt ms mm)
              = map (\<lambda>(k, v). (k, v / sum_list (map snd ws))) ws \<and>
            sum_list (map snd (weights (Criteria_new ws req opt ms mm))) = 1) \<and>
         (sum_list (map snd ws) = 0 \<longrightarrow>
            weights (Criteria_new ws req opt ms mm) = ws \<and> (\<forall>(k, v) \<in> set ws. v = 0))"
proof (intro conjI impI)
  assume pos: "0 < sum_list (map snd ws)"
  then show w: "weights (Criteria_new ws req opt ms mm)
              = map (\<lambda>(k, v). (k, v / sum_list (map snd ws))) ws"
    by (simp add: Criteria_new_def Criteria_post_init_def)
  from pos show "sum_list (map snd (weights (Criteria_new ws req opt ms mm))) = 1"
    unfolding w sum_list_normalised by simp
next
  assume z: "sum_list (map snd ws) = 0"
  then show "weights (Criteria_new ws req opt ms mm) = ws"
    by (simp add: Criteria_new_def Criteria_post_init_def)
  from assms z show "\<forall>(k, v) \<in> set ws. v = 0" by (rule nonneg_sum_zero)
qed

theorem weights_normalised_witness:
  "weights (Criteria_new [(''a'', 1), (''b'', 3)] [] [] 0 1) = [(''a'', 1 / 4), (''b'', 3 / 4)] \<and>
   sum_list (map snd (weights (Criteria_new [(''a'', 1), (''b'', 3)] [] [] 0 1))) = 1 \<and>
   weights (Criteria_new [(''a'', 0), (''b'', 0)] [] [] 0 1) = [(''a'', 0), (''b'', 0)]"
  using weights_normalised [of "[(''a'', 1), (''b'', 3)]" "[]" "[]" 0 1]
    weights_normalised [of "[(''a'', 0), (''b'', 0)]" "[]" "[]" 0 1]
  by simp

subsection \<open>Range and required-attribute gate of the scorers\<close>

lemma foldl_weighted:
  "foldl (\<lambda>t (a, s). t + g a * s) acc xs = acc + sum_list (map (\<lambda>(a, s). g a * s) xs)"
  for acc :: real
  by (induction xs arbitrary: acc) (auto simp: algebra_simps)

lemma calculate_weighted_score_sum:
  "calculate_weighted_score c scores = sum_list (map (\<lambda>(a, s). weights_get c a * s) scores)"
  by (simp add: calculate_weighted_score_def foldl_weighted)

lemma weights_get_distinct:
  "distinct (map fst (weights c)) \<Longrightarrow> (k, w) \<in> set (weights c) \<Longrightarrow> weights_get c k = w"
  by (simp add: weights_get_def)

lemma weighted_score_keys:
  assumes "distinct (map fst (weights c))"
  shows "calculate_weighted_score c (map (\<lambda>k. (k, f k)) (map fst (weights c)))
           = sum_list (map (\<lambda>(k, w). w * f k) (weights c))"
proof -
  have "map (\<lambda>(a, s). weights_get c a * s) (map (\<lambda>k. (k, f k)) (map fst (weights c)))
          = map (\<lambda>(k, w). w * f k) (weights c)"
    using assms by (auto simp: weights_get_distinct)
  then show ?thesis by (simp only: calculate_weighted_score_sum)
qed

lemma weighted_score_range:
  assumes d: "distinct (map fst (weights c))"
    and nn: "\<forall>(k, w) \<in> set (weights c). 0 \<le> w"
    and le1: "sum_list (map snd (weights c)) \<le> 1"
    and f: "\<And>k. 0 \<le> f k \<and> f k \<le> 1"
  shows "0 \<le> calculate_weighted_score c (map (\<lambda>k. (k, f k)) (map fst (weights c))) \<and>
         calculate_weighted_score c (map (\<lambda>k. (k, f k)) (map fst (weights c))) \<le> 1"
proof -
  let ?s = "sum_list (map (\<lambda>(k, w). w * f k) (weights c))"
  have "0 \<le> ?s"
    using nn f by (intro sum_list_nonneg) auto
  moreover have "?s \<le> sum_list (map snd (weights c))"
    using nn f by (intro sum_list_mono) (auto simp: mult_left_le)
  ultimately show ?thesis
    unfolding weighted_score_keys [OF d] using le1 by simp
qed

lemma compare_attribute_range:
  "0 \<le> compare_attribute a b n \<and> compare_attribute a b n \<le> 1"
proof (cases a; cases b)
  fix xs ys assume ab: "a = PList xs" "b = PList ys"
  have "card (set (map lower xs) \<inter> set (map lower ys))
          \<le> card (set (map lower xs) \<union> set (map lower ys))"
    by (intro card_mono) auto
  then show ?thesis
    by (auto simp: ab Let_def divide_le_eq)
qed (auto simp: Let_def)

lemma gs_compare_range: "0 \<le> gs_compare a b \<and> gs_compare a b \<le> 1"
  by (auto simp: gs_compare_def)

lemma Criteria_new_fields:
  "required_attributes (Criteria_new ws req opt ms mm) = req"
  "min_score (Criteria_new ws req opt ms mm) = ms"
  "map fst (weights (Criteria_new ws req opt ms mm)) = map fst ws"
  by (auto simp: Criteria_new_def Criteria_post_init_def Let_def)

lemma Criteria_new_weights:
  assumes "\<forall>(k, w) \<in> set ws. 0 \<le> w"
  shows "\<forall>(k, w) \<in> set (weights (Criteria_new ws req opt ms mm)). 0 \<le> w"
    and "sum_list (map snd (weights (Criteria_new ws req opt ms mm))) \<le> 1"
proof -
  show "\<forall>(k, w) \<in> set (weights (Criteria_new ws req opt ms mm)). 0 \<le> w"
    using assms by (auto simp: Criteria_new_def Criteria_post_init_def Let_def)
  show "sum_list (map snd (weights (Criteria_new ws req opt ms mm))) \<le> 1"
  proof (cases "0 < sum_list (map snd ws)")
    case True
    then have "weights (Criteria_new ws req opt ms mm)
                 = map (\<lambda>(k, v). (k, v / sum_list (map snd ws))) ws"
      by (simp add: Criteria_new_def Criteria_post_init_def)
    then show ?thesis
      unfolding sum_list_normalised using True by (simp only: sum_list_normalised) simp
  next
    case False
    then show ?thesis
      by (simp add: Criteria_new_def Criteria_post_init_def)
  qed
qed

text \<open>
  Over exact real arithmetic (every float operation read as the operation on reals), for
  a Criteria constructed from non-negative weights, both scorers return a number between
  0 and 1, and both return 0 when a required attribute is missing from the attribute
  mapping of one of the two entities.
\<close>

theorem similarity_range_and_gate:
  assumes "distinct (map fst ws)" and "\<forall>(k, w) \<in> set ws. 0 \<le> w"
    and "criteria = Criteria_new ws req opt ms mm"
  shows "0 \<le> hungarian_calculate_similarity entity_a entity_b criteria \<and>
         hungarian_calculate_similarity entity_a entity_b criteria \<le> 1 \<and>
         0 \<le> gs_calculate_similarity entity_a entity_b criteria \<and>
         gs_calculate_similarity entity_a entity_b criteria \<le> 1 \<and>
         ((\<exists>r \<in> set (required_attributes criteria).
              \<not> has_attribute entity_a r \<or> \<not> has_attribute entity_b r) \<longrightarrow>
            hungarian_calculate_similarity entity_a entity_b criteria = 0 \<and>
            gs_calculate_similarity entity_a entity_b criteria = 0)"
proof -
  have d: "distinct (map fst (weights criteria))"
    using assms(1,3) by (simp add: Criteria_new_fields)
  have nn: "\<forall>(k, w) \<in> set (weights criteria). 0 \<le> w"
    and le1: "sum_list (map snd (weights criteria)) \<le> 1"
    using Criteria_new_weights [OF assms(2)] assms(3) by auto
  have h: "0 \<le> calculate_weighted_score criteria (hungarian_scores entity_a entity_b criteria) \<and>
           calculate_weighted_score criteria (hungarian_scores entity_a entity_b criteria) \<le> 1"
    unfolding hungarian_scores_def
    by (rule weighted_score_range [OF d nn le1]) (rule compare_attribute_range)
  have g: "0 \<le> calculate_weighted_score criteria (gs_scores entity_a entity_b criteria) \<and>
           calculate_weighted_score criteria (gs_scores entity_a entity_b criteria) \<le> 1"
    unfolding gs_scores_def
    by (rule weighted_score_range [OF d nn le1]) (rule gs_compare_range)
  from h g show ?thesis
    by (auto simp: hungarian_calculate_similarity_def gs_calculate_similarity_def
          missing_required_def Let_def)
qed

theorem similarity_range_and_gate_witness:
  "0 \<le> hungarian_calculate_similarity
          \<lparr>ent_id = ''X'', entity_type = CANDIDATE,
             attributes = [(''name'', PStr ''Bob''), (''age'', PNum 30)],
             preferences = [], constraints = []\<rparr>
          \<lparr>ent_id = ''Y'', entity_type = JOB, attributes = [(''name'', PStr ''bobby'')],
             preferences = [], constraints = []\<rparr>
          (Criteria_new [(''name'', 1), (''age'', 3)] [''age''] [] (1 / 4) 1) \<and>
   hungarian_calculate_similarity
          \<lparr>ent_id = ''X'', entity_type = CANDIDATE,
             attributes = [(''name'', PStr ''Bob''), (''age'', PNum 30)],
             preferences = [], constraints = []\<rparr>
          \<lparr>ent_id = ''Y'', entity_type = JOB, attributes = [(''name'', PStr ''bobby'')],
             preferences = [], constraints = []\<rparr>
          (Criteria_new [(''name'', 1), (''age'', 3)] [''age''] [] (1 / 4) 1) = 0 \<and>
   gs_calculate_similarity
          \<lparr>ent_id = ''X'', entity_type = CANDIDATE,
             attributes = [(''name'', PStr ''Bob''), (''age'', PNum 30)],
             preferences = [], constraints = []\<rparr>
          \<lparr>ent_id = ''Y'', entity_type = JOB, attributes = [(''name'', PStr ''bobby'')],
             preferences = [], constraints = []\<rparr>
          (Criteria_new [(''name'', 1), (''age'', 3)] [''age''] [] (1 / 4) 1) = 0"
proof -
  let ?ws = "[(''name'', 1), (''age'', 3)] :: (string \<times> real) list"
  let ?c = "Criteria_new ?ws [''age''] [] (1 / 4) 1"
  let ?X = "\<lparr>ent_id = ''X'', entity_type = CANDIDATE,
             attributes = [(''name'', PStr ''Bob''), (''age'', PNum 30)],
             preferences = [], constraints = []\<rparr>"
  let ?Y = "\<lparr>ent_id = ''Y'', entity_type = JOB, attributes = [(''name'', PStr ''bobby'')],
             preferences = [], constraints = []\<rparr>"
  have h1: "distinct (map fst ?ws)" by simp
  have h2: "\<forall>(k, w) \<in> set ?ws. 0 \<le> w" by simp
  have h3: "\<exists>r \<in> set (required_attributes ?c).
              \<not> has_attribute ?X r \<or> \<not> has_attribute ?Y r"
    by (simp add: Criteria_new_fields has_attribute_def)
  from similarity_range_and_gate [where ws = ?ws and req = "[''age'']" and opt = "[]"
      and ms = "1 / 4" and mm = 1 and entity_a = ?X and entity_b = ?Y, OF h1 h2 refl] h3
  show ?thesis by blast
qed


subsection \<open>The scores as binary64 numbers\<close>

lemma fl_examples:
  "fl (1 / 10) = 3602879701896397 / 36028797018963968 \<and> fl (1 / 4) = 1 / 4 \<and>
   fl (1 + 1 / 2 ^ 53) = 1 \<and> fl (1 + 3 / 2 ^ 53) = 1 + 2 / 2 ^ 52 \<and>
   fl (- (1 / 3)) = - (6004799503160661 / 18014398509481984)"
  by code_simp

lemma fx_c_eval:
  "fx_c = \<lparr>weights = fx_w, required_attributes = [], optional_attributes = [],
           min_score = 0, max_matches = 1\<rparr>"
  by code_simp

lemma fx_scores:
  "hungarian_scores fx_a fx_b
     \<lparr>weights = fx_w, required_attributes = [], optional_attributes = [],
      min_score = 0, max_matches = 1\<rparr> = [(''a'', 1), (''b'', 1), (''c'', 1), (''d'', 1)]"
  "gs_scores fx_a fx_b
     \<lparr>weights = fx_w, required_attributes = [], optional_attributes = [],
      min_score = 0, max_matches = 1\<rparr> = [(''a'', 1), (''b'', 1), (''c'', 1), (''d'', 1)]"
  by code_simp+

lemma fx_sum:
  "calculate_weighted_score_f64
     \<lparr>weights = fx_w, required_attributes = [], optional_attributes = [],
      min_score = 0, max_matches = 1\<rparr> [(''a'', 1), (''b'', 1), (''c'', 1), (''d'', 1)]
     = 1 + 1 / 2 ^ 52"
  by code_simp

text \<open>
  C5. Weights 1, 6, 3, 3 and two entities whose four attributes are equal: every
  attribute score is 1, the normalised weights are the binary64 numbers nearest to 1/13,
  6/13, 3/13 and 3/13, and their sum accumulated in binary64 is \<open>1 + 1 / 2 ^ 52\<close>, so both
  scorers return a number above 1.
\<close>

theorem float_score_exceeds_one:
  "weights fx_c = fx_w \<and>
   hungarian_scores fx_a fx_b fx_c = [(''a'', 1), (''b'', 1), (''c'', 1), (''d'', 1)] \<and>
   gs_scores fx_a fx_b fx_c = [(''a'', 1), (''b'', 1), (''c'', 1), (''d'', 1)] \<and>
   hungarian_calculate_similarity_f64 fx_a fx_b fx_c = 1 + 1 / 2 ^ 52 \<and>
   gs_calculate_similarity_f64 fx_a fx_b fx_c = 1 + 1 / 2 ^ 52"
  unfolding fx_c_eval
  by (simp add: hungarian_calculate_similarity_f64_def gs_calculate_similarity_f64_def
        fx_scores fx_sum missing_required_def)

theorem float_score_exceeds_one_witness:
  "hungarian_calculate_similarity_f64 fx_a fx_b fx_c = 1 + 1 / 2 ^ 52"
  using float_score_exceeds_one by blast
subsection \<open>Symmetry of the scorers\<close>

lemma compare_attribute_sym: "compare_attribute a b n = compare_attribute b a n"
  by (cases a; cases b) (auto simp: Let_def Int_commute Un_commute abs_minus_commute)

lemma gs_compare_sym: "gs_compare a b = gs_compare b a"
  by (auto simp: gs_compare_def abs_minus_commute)

lemma missing_required_sym: "missing_required a b c = missing_required b a c"
  by (auto simp: missing_required_def)

text \<open>
  C10. Each scorer gives the same score when its two entity arguments are exchanged.
\<close>

theorem similarity_symmetric:
  "hungarian_calculate_similarity entity_a entity_b criteria
     = hungarian_calculate_similarity entity_b entity_a criteria \<and>
   gs_calculate_similarity entity_a entity_b criteria
     = gs_calculate_similarity entity_b entity_a criteria"
proof -
  have "hungarian_scores entity_a entity_b criteria = hungarian_scores entity_b entity_a criteria"
    by (simp add: hungarian_scores_def compare_attribute_sym [of "get_attribute entity_a _"])
  moreover have "gs_scores entity_a entity_b criteria = gs_scores entity_b entity_a criteria"
    by (simp add: gs_scores_def gs_compare_sym [of "get_attribute entity_a _"])
  ultimately show ?thesis
    by (simp add: hungarian_calculate_similarity_def gs_calculate_similarity_def
          missing_required_sym [of entity_a])
qed

theorem similarity_symmetric_witness:
  "hungarian_calculate_similarity
     \<lparr>ent_id = ''X'', entity_type = CANDIDATE,
        attributes = [(''name'', PStr ''Bob''), (''age'', PNum 30)],
        preferences = [], constraints = []\<rparr>
     \<lparr>ent_id = ''Y'', entity_type = JOB,
        attributes = [(''name'', PStr ''bobby''), (''age'', PNum 40)],
        preferences = [], constraints = []\<rparr>
     (Criteria_new [(''name'', 1), (''age'', 3)] [''age''] [] (1 / 4) 1)
   = hungarian_calculate_similarity
     \<lparr>ent_id = ''Y'', entity_type = JOB,
        attributes = [(''name'', PStr ''bobby''), (''age'', PNum 40)],
        preferences = [], constraints = []\<rparr>
     \<lparr>ent_id = ''X'', entity_type = CANDIDATE,
        attributes = [(''name'', PStr ''Bob''), (''age'', PNum 30)],
        preferences = [], constraints = []\<rparr>
     (Criteria_new [(''name'', 1), (''age'', 3)] [''age''] [] (1 / 4) 1) \<and>
   gs_calculate_similarity
     \<lparr>ent_id = ''X'', entity_type = CANDIDATE,
        attributes = [(''name'', PStr ''Bob''), (''age'', PNum 30)],
        preferences = [], constraints = []\<rparr>
     \<lparr>ent_id = ''Y'', entity_type = JOB,
        attributes = [(''name'', PStr ''bobby''), (''age'', PNum 40)],
        preferences = [], constraints = []\<rparr>
     (Criteria_new [(''name'', 1), (''age'', 3)] [''age''] [] (1 / 4) 1)
   = gs_calculate_similarity
     \<lparr>ent_id = ''Y'', entity_type = JOB,
        attributes = [(''name'', PStr ''bobby''), (''age'', PNum 40)],
        preferences = [], constraints = []\<rparr>
     \<lparr>ent_id = ''X'', entity_type = CANDIDATE,
        attributes = [(''name'', PStr ''Bob''), (''age'', PNum 30)],
        preferences = [], constraints = []\<rparr>
     (Criteria_new [(''name'', 1), (''age'', 3)] [''age''] [] (1 / 4) 1)"
  by (rule similarity_symmetric)

subsection \<open>An empty side\<close>

text \<open>
  C9. When one of the two entity lists is empty, each matcher returns (it does not raise)
  the result with no match, the ids of all entities of both sides as unmatched, and total
  score 0. The solver is not called.
\<close>

theorem empty_side_result:
  assumes "entities_a = [] \<or> entities_b = []"
  shows "gs_match entities_a entities_b criteria
           = Inr \<lparr>matches = [], unmatched_entities = map ent_id (entities_a @ entities_b),
                  total_score = 0\<rparr> \<and>
         hungarian_match lsa entities_a entities_b criteria
           = Inr \<lparr>matches = [], unmatched_entities = map ent_id (entities_a @ entities_b),
                  total_score = 0\<rparr>"
  using assms by (auto simp: gs_match_def hungarian_match_def)

theorem empty_side_result_witness:
  "gs_match []
     [\<lparr>ent_id = ''Y'', entity_type = JOB, attributes = [], preferences = [], constraints = []\<rparr>]
     (Criteria_new [(''experience_years'', 1)] [] [] (1 / 2) 1)
     = Inr \<lparr>matches = [], unmatched_entities = [''Y''], total_score = 0\<rparr> \<and>
   hungarian_match (\<lambda>cm. Inl ValueError) []
     [\<lparr>ent_id = ''Y'', entity_type = JOB, attributes = [], preferences = [], constraints = []\<rparr>]
     (Criteria_new [(''experience_years'', 1)] [] [] (1 / 2) 1)
     = Inr \<lparr>matches = [], unmatched_entities = [''Y''], total_score = 0\<rparr>"
  using empty_side_result [of "[]"
      "[\<lparr>ent_id = ''Y'', entity_type = JOB, attributes = [], preferences = [], constraints = []\<rparr>]"
      "Criteria_new [(''experience_years'', 1)] [] [] (1 / 2) 1" "\<lambda>cm. Inl ValueError"]
  by simp

subsection \<open>The deferred-acceptance loop: invariant, termination\<close>

lemma list_index_None: "list_index l x = None \<longleftrightarrow> x \<notin> set l"
  by (induction l) auto

lemma list_index_Some: "list_index l x = Some i \<Longrightarrow> i < length l \<and> l ! i = x"
  by (induction l arbitrary: i) (auto split: if_splits)

lemma list_index_nth: "distinct l \<Longrightarrow> i < length l \<Longrightarrow> list_index l (l ! i) = Some i"
proof (induction l arbitrary: i)
  case Nil
  then show ?case by simp
next
  case (Cons a l)
  then show ?case by (cases i) auto
qed

lemma list_index_mem: "x \<in> set l \<Longrightarrow> \<exists>i. list_index l x = Some i"
  using list_index_None [of l x] by (cases "list_index l x") auto

lemma gs_step_cases:
  assumes "gs_step prefs st = Inr st'"
  obtains
    (exhausted) p rest l i where
      "free_proposers st = p # rest" "map_of prefs p = Some l"
      "map_of (proposer_index st) p = Some i" "length l \<le> i"
      "st' = st\<lparr>free_proposers := rest\<rparr>"
  | (engage) p rest l i where
      "free_proposers st = p # rest" "map_of prefs p = Some l"
      "map_of (proposer_index st) p = Some i" "i < length l"
      "map_of (engagements st) (l ! i) = None"
      "st' = st\<lparr>proposer_index := AList.update p (i + 1) (proposer_index st),
                 proposals := proposals st + 1,
                 engagements := AList.update (l ! i) p (engagements st),
                 free_proposers := rest\<rparr>"
  | (swap) p rest l i cur lq r rc where
      "free_proposers st = p # rest" "map_of prefs p = Some l"
      "map_of (proposer_index st) p = Some i" "i < length l"
      "map_of (engagements st) (l ! i) = Some cur" "map_of prefs (l ! i) = Some lq"
      "list_index lq p = Some r" "list_index lq cur = Some rc" "r < rc"
      "st' = st\<lparr>proposer_index := AList.update p (i + 1) (proposer_index st),
                 proposals := proposals st + 1,
                 engagements := AList.update (l ! i) p (engagements st),
                 free_proposers := rest @ [cur]\<rparr>"
  | (reject) p rest l i cur lq r rc where
      "free_proposers st = p # rest" "map_of prefs p = Some l"
      "map_of (proposer_index st) p = Some i" "i < length l"
      "map_of (engagements st) (l ! i) = Some cur" "map_of prefs (l ! i) = Some lq"
      "list_index lq p = Some r" "list_index lq cur = Some rc" "\<not> r < rc"
      "st' = st\<lparr>proposer_index := AList.update p (i + 1) (proposer_index st),
                 proposals := proposals st + 1\<rparr>"
  using assms unfolding gs_step_def Let_def
  by (auto split: list.splits option.splits if_splits prod.splits)


lemma sum_snd_update:
  "map_of idx p = Some i \<Longrightarrow>
     sum_list (map snd (AList.update p (Suc i) idx)) = Suc (sum_list (map snd idx))"
  for idx :: "(string \<times> nat) list"
  by (induction idx) (auto split: if_splits)

lemma keys_update:
  "map_of al k = Some v \<Longrightarrow> map fst (AList.update k w al) = map fst al"
  by (auto simp: update_keys dest!: map_of_SomeD intro: rev_image_eqI)

lemma gs_invD:
  assumes "gs_inv prefs P st"
  shows "distinct (free_proposers st)" "set (free_proposers st) \<subseteq> set P"
    "map fst (proposer_index st) = P"
    "\<And>p i. map_of (proposer_index st) p = Some i \<Longrightarrow> i \<le> length (prefs_of prefs p)"
    "\<And>q p. map_of (engagements st) q = Some p \<Longrightarrow>
        p \<in> set P \<and> p \<notin> set (free_proposers st) \<and>
        (\<exists>i. map_of (proposer_index st) p = Some (Suc i) \<and> i < length (prefs_of prefs p) \<and>
             prefs_of prefs p ! i = q)"
    "\<And>p. p \<in> set P \<Longrightarrow> p \<notin> set (free_proposers st) \<Longrightarrow>
        (\<exists>q. map_of (engagements st) q = Some p) \<or>
        map_of (proposer_index st) p = Some (length (prefs_of prefs p))"
    "\<And>p i j. map_of (proposer_index st) p = Some i \<Longrightarrow> j < i \<Longrightarrow>
        (\<exists>p' r r'. map_of (engagements st) (prefs_of prefs p ! j) = Some p' \<and>
           list_index (prefs_of prefs (prefs_of prefs p ! j)) p' = Some r' \<and>
           list_index (prefs_of prefs (prefs_of prefs p ! j)) p = Some r \<and> r' \<le> r)"
    "proposals st = sum_list (map snd (proposer_index st))"
    "distinct (map fst (engagements st))"
  using assms unfolding gs_inv_def by blast+

lemma engaged_unique:
  assumes "gs_inv prefs P st"
    and "map_of (engagements st) q = Some p" and "map_of (engagements st) q' = Some p"
  shows "q = q'"
  using gs_invD(5) [OF assms(1) assms(2)] gs_invD(5) [OF assms(1) assms(3)] by auto

lemma gs_invI:
  assumes "distinct (free_proposers st)" "set (free_proposers st) \<subseteq> set P"
    "map fst (proposer_index st) = P"
    "\<And>p i. map_of (proposer_index st) p = Some i \<Longrightarrow> i \<le> length (prefs_of prefs p)"
    "\<And>q p. map_of (engagements st) q = Some p \<Longrightarrow>
        p \<in> set P \<and> p \<notin> set (free_proposers st) \<and>
        (\<exists>i. map_of (proposer_index st) p = Some (Suc i) \<and> i < length (prefs_of prefs p) \<and>
             prefs_of prefs p ! i = q)"
    "\<And>p. p \<in> set P \<Longrightarrow> p \<notin> set (free_proposers st) \<Longrightarrow>
        (\<exists>q. map_of (engagements st) q = Some p) \<or>
        map_of (proposer_index st) p = Some (length (prefs_of prefs p))"
    "\<And>p i j. map_of (proposer_index st) p = Some i \<Longrightarrow> j < i \<Longrightarrow>
        (\<exists>p' r r'. map_of (engagements st) (prefs_of prefs p ! j) = Some p' \<and>
           list_index (prefs_of prefs (prefs_of prefs p ! j)) p' = Some r' \<and>
           list_index (prefs_of prefs (prefs_of prefs p ! j)) p = Some r \<and> r' \<le> r)"
    "proposals st = sum_list (map snd (proposer_index st))"
    "distinct (map fst (engagements st))"
  shows "gs_inv prefs P st"
  unfolding gs_inv_def using assms by blast

lemma gs_inv_exhausted:
  assumes inv: "gs_inv prefs P st"
    and st: "free_proposers st = p # rest" "map_of prefs p = Some l"
      "map_of (proposer_index st) p = Some i" "length l \<le> i"
  shows "gs_inv prefs P (st\<lparr>free_proposers := rest\<rparr>)"
proof (rule gs_invI)
  note D = gs_invD [OF inv]
  have pl: "prefs_of prefs p = l" using st(2) by (simp add: prefs_of_def)
  have il: "i = length l" using D(4) [OF st(3)] st(4) pl by simp
  have pr: "p \<notin> set rest" using D(1) st(1) by simp
  show "distinct (free_proposers (st\<lparr>free_proposers := rest\<rparr>))"
    using D(1) st(1) by simp
  show "set (free_proposers (st\<lparr>free_proposers := rest\<rparr>)) \<subseteq> set P"
    using D(2) st(1) by simp
  show "map fst (proposer_index (st\<lparr>free_proposers := rest\<rparr>)) = P"
    using D(3) by simp
  show "i \<le> length (prefs_of prefs p)"
    if "map_of (proposer_index (st\<lparr>free_proposers := rest\<rparr>)) p = Some i" for p i
    using D(4) that by simp
  show "p' \<in> set P \<and> p' \<notin> set (free_proposers (st\<lparr>free_proposers := rest\<rparr>)) \<and>
        (\<exists>i. map_of (proposer_index (st\<lparr>free_proposers := rest\<rparr>)) p' = Some (Suc i) \<and>
             i < length (prefs_of prefs p') \<and> prefs_of prefs p' ! i = q)"
    if "map_of (engagements (st\<lparr>free_proposers := rest\<rparr>)) q = Some p'" for q p'
    using D(5) [of q p'] that st(1) by simp
  show "(\<exists>q. map_of (engagements (st\<lparr>free_proposers := rest\<rparr>)) q = Some p') \<or>
        map_of (proposer_index (st\<lparr>free_proposers := rest\<rparr>)) p'
          = Some (length (prefs_of prefs p'))"
    if "p' \<in> set P" "p' \<notin> set (free_proposers (st\<lparr>free_proposers := rest\<rparr>))" for p'
  proof (cases "p' = p")
    case True
    then show ?thesis using st(3) il pl by simp
  next
    case False
    then show ?thesis using D(6) [of p'] that st(1) by simp
  qed
  show "\<exists>p' r r'. map_of (engagements (st\<lparr>free_proposers := rest\<rparr>)) (prefs_of prefs p ! j) = Some p' \<and>
           list_index (prefs_of prefs (prefs_of prefs p ! j)) p' = Some r' \<and>
           list_index (prefs_of prefs (prefs_of prefs p ! j)) p = Some r \<and> r' \<le> r"
    if "map_of (proposer_index (st\<lparr>free_proposers := rest\<rparr>)) p = Some i" "j < i" for p i j
    using D(7) [of p i j] that by simp
  show "proposals (st\<lparr>free_proposers := rest\<rparr>)
          = sum_list (map snd (proposer_index (st\<lparr>free_proposers := rest\<rparr>)))"
    using D(8) by simp
  show "distinct (map fst (engagements (st\<lparr>free_proposers := rest\<rparr>)))"
    using D(9) by simp
qed


lemma gs_wfD:
  assumes "gs_wf prefs P"
  shows "distinct P"
    "\<And>p. p \<in> set P \<Longrightarrow> distinct (prefs_of prefs p) \<and>
             map_of prefs p = Some (prefs_of prefs p)"
    "\<And>p q. p \<in> set P \<Longrightarrow> q \<in> set (prefs_of prefs p) \<Longrightarrow>
             map_of prefs q = Some (prefs_of prefs q) \<and> p \<in> set (prefs_of prefs q)"
proof -
  show "distinct P" using assms by (simp add: gs_wf_def)
  show "distinct (prefs_of prefs p) \<and> map_of prefs p = Some (prefs_of prefs p)"
    if "p \<in> set P" for p
    using assms that unfolding gs_wf_def prefs_of_def by fastforce
  show "map_of prefs q = Some (prefs_of prefs q) \<and> p \<in> set (prefs_of prefs q)"
    if "p \<in> set P" "q \<in> set (prefs_of prefs p)" for p q
  proof -
    from assms that(1) obtain l where
      l: "map_of prefs p = Some l" "\<forall>q \<in> set l. \<exists>lq. map_of prefs q = Some lq \<and> p \<in> set lq"
      unfolding gs_wf_def by blast
    from l(1) that(2) have "q \<in> set l" by (simp add: prefs_of_def)
    with l(2) obtain lq where "map_of prefs q = Some lq" "p \<in> set lq" by blast
    then show ?thesis by (simp add: prefs_of_def)
  qed
qed

lemma gs_inv_propose:
  assumes wf: "gs_wf prefs P" and inv: "gs_inv prefs P st"
    and st: "free_proposers st = p # rest" "map_of prefs p = Some l"
      "map_of (proposer_index st) p = Some i" "i < length l"
    and idx': "proposer_index st' = AList.update p (i + 1) (proposer_index st)"
    and props': "proposals st' = proposals st + 1"
    and cases: "(map_of (engagements st) (l ! i) = None \<and>
                 engagements st' = AList.update (l ! i) p (engagements st) \<and>
                 free_proposers st' = rest) \<or>
                (\<exists>cur r rc. map_of (engagements st) (l ! i) = Some cur \<and>
                   list_index (prefs_of prefs (l ! i)) p = Some r \<and>
                   list_index (prefs_of prefs (l ! i)) cur = Some rc \<and>
                   ((r < rc \<and> engagements st' = AList.update (l ! i) p (engagements st) \<and>
                     free_proposers st' = rest @ [cur]) \<or>
                    (\<not> r < rc \<and> engagements st' = engagements st \<and>
                     free_proposers st' = free_proposers st)))"
  shows "gs_inv prefs P st'"
proof -
  note D = gs_invD [OF inv]
  note W = gs_wfD [OF wf]
  let ?q = "l ! i"
  have pl: "prefs_of prefs p = l" using st(2) by (simp add: prefs_of_def)
  have pP: "p \<in> set P" using D(2) st(1) by simp
  have pr: "p \<notin> set rest" using D(1) st(1) by simp
  have ql: "?q \<in> set (prefs_of prefs p)" using st(4) pl by simp
  obtain r where r: "list_index (prefs_of prefs ?q) p = Some r"
    using W(3) [OF pP ql] list_index_mem [of p "prefs_of prefs ?q"] by auto
  have idx: "map_of (proposer_index st') x = (if x = p then Some (Suc i) else map_of (proposer_index st) x)" for x
    by (simp add: idx' update_conv')
  have engaged_ne: "x \<noteq> p" if "map_of (engagements st) y = Some x" for x y
    using D(5) [OF that] st(1) by auto
  have keys: "map fst (proposer_index st') = P"
    using D(3) st(3) by (simp add: idx' keys_update)
  have sum: "proposals st' = sum_list (map snd (proposer_index st'))"
    using D(8) st(3) by (simp add: idx' props' sum_snd_update)
  have le: "k \<le> length (prefs_of prefs x)" if "map_of (proposer_index st') x = Some k" for x k
    using that D(4) [of x k] st(4) pl by (auto simp: idx split: if_splits)
  from cases consider
    (engage) "map_of (engagements st) ?q = None"
      "engagements st' = AList.update ?q p (engagements st)" "free_proposers st' = rest"
  | (swap) cur rc where "map_of (engagements st) ?q = Some cur"
      "list_index (prefs_of prefs ?q) cur = Some rc" "r < rc"
      "engagements st' = AList.update ?q p (engagements st)" "free_proposers st' = rest @ [cur]"
  | (reject) cur rc where "map_of (engagements st) ?q = Some cur"
      "list_index (prefs_of prefs ?q) cur = Some rc" "\<not> r < rc"
      "engagements st' = engagements st" "free_proposers st' = free_proposers st"
    using r by auto
  then show ?thesis
  proof cases
    case engage
    have eng: "map_of (engagements st') y = (if y = ?q then Some p else map_of (engagements st) y)" for y
      by (simp add: engage(2) update_conv')
    show ?thesis
    proof (rule gs_invI)
      show "distinct (free_proposers st')" using D(1) st(1) engage(3) by simp
      show "set (free_proposers st') \<subseteq> set P" using D(2) st(1) engage(3) by simp
      show "map fst (proposer_index st') = P" by (rule keys)
      show "k \<le> length (prefs_of prefs x)" if "map_of (proposer_index st') x = Some k" for x k
        using that by (rule le)
      show "x \<in> set P \<and> x \<notin> set (free_proposers st') \<and>
            (\<exists>k. map_of (proposer_index st') x = Some (Suc k) \<and> k < length (prefs_of prefs x) \<and>
                 prefs_of prefs x ! k = y)"
        if "map_of (engagements st') y = Some x" for y x
      proof (cases "y = ?q")
        case True
        then show ?thesis using that pP pr st(4) pl by (simp add: eng idx engage(3))
      next
        case False
        with that have e: "map_of (engagements st) y = Some x" by (simp add: eng)
        from D(5) [OF e] engaged_ne [OF e] show ?thesis
          using st(1) by (simp add: idx engage(3))
      qed
      show "(\<exists>y. map_of (engagements st') y = Some x) \<or>
            map_of (proposer_index st') x = Some (length (prefs_of prefs x))"
        if "x \<in> set P" "x \<notin> set (free_proposers st')" for x
      proof (cases "x = p")
        case True
        then show ?thesis using eng by auto
      next
        case False
        with that have "x \<notin> set (free_proposers st)" by (simp add: st(1) engage(3))
        from D(6) [OF that(1) this] show ?thesis
        proof
          assume "\<exists>y. map_of (engagements st) y = Some x"
          then obtain y where y: "map_of (engagements st) y = Some x" ..
          with engage(1) have "y \<noteq> ?q" by auto
          with y show ?thesis by (auto simp: eng)
        next
          assume "map_of (proposer_index st) x = Some (length (prefs_of prefs x))"
          then show ?thesis using False by (simp add: idx)
        qed
      qed
      show "\<exists>p' r r'. map_of (engagements st') (prefs_of prefs x ! j) = Some p' \<and>
               list_index (prefs_of prefs (prefs_of prefs x ! j)) p' = Some r' \<and>
               list_index (prefs_of prefs (prefs_of prefs x ! j)) x = Some r \<and> r' \<le> r"
        if "map_of (proposer_index st') x = Some k" "j < k" for x k j
      proof (cases "x = p \<and> j = i")
        case True
        then show ?thesis using r pl by (auto simp: eng)
      next
        case False
        with that st(3) obtain k' where k': "map_of (proposer_index st) x = Some k'" "j < k'"
          by (cases "x = p") (auto simp: idx less_Suc_eq)
        from D(7) [OF k'] show ?thesis
          using engage(1) by (auto simp: eng)
      qed
      show "proposals st' = sum_list (map snd (proposer_index st'))" by (rule sum)
      show "distinct (map fst (engagements st'))"
        using D(9) by (simp add: engage(2) distinct_update)
    qed
  next
    case swap
    have eng: "map_of (engagements st') y = (if y = ?q then Some p else map_of (engagements st) y)" for y
      by (simp add: swap(4) update_conv')
    have cur: "cur \<in> set P" "cur \<notin> set (free_proposers st)"
      using D(5) [OF swap(1)] by auto
    have cur_only: "y = ?q" if "map_of (engagements st) y = Some cur" for y
      using engaged_unique [OF inv that swap(1)] .
    show ?thesis
    proof (rule gs_invI)
      show "distinct (free_proposers st')" using D(1) st(1) swap(5) cur by simp
      show "set (free_proposers st') \<subseteq> set P" using D(2) st(1) swap(5) cur by simp
      show "map fst (proposer_index st') = P" by (rule keys)
      show "k \<le> length (prefs_of prefs x)" if "map_of (proposer_index st') x = Some k" for x k
        using that by (rule le)
      show "x \<in> set P \<and> x \<notin> set (free_proposers st') \<and>
            (\<exists>k. map_of (proposer_index st') x = Some (Suc k) \<and> k < length (prefs_of prefs x) \<and>
                 prefs_of prefs x ! k = y)"
        if "map_of (engagements st') y = Some x" for y x
      proof (cases "y = ?q")
        case True
        then show ?thesis using that pP pr st(1,4) pl cur by (auto simp: eng idx swap(5))
      next
        case False
        with that have e: "map_of (engagements st) y = Some x" by (simp add: eng)
        have "x \<noteq> cur" using cur_only e False by auto
        with D(5) [OF e] engaged_ne [OF e] show ?thesis
          using st(1) by (simp add: idx swap(5))
      qed
      show "(\<exists>y. map_of (engagements st') y = Some x) \<or>
            map_of (proposer_index st') x = Some (length (prefs_of prefs x))"
        if "x \<in> set P" "x \<notin> set (free_proposers st')" for x
      proof (cases "x = p")
        case True
        then show ?thesis using eng by auto
      next
        case False
        with that have nf: "x \<notin> set (free_proposers st)" and nc: "x \<noteq> cur"
          by (auto simp: st(1) swap(5))
        from D(6) [OF that(1) nf] show ?thesis
        proof
          assume "\<exists>y. map_of (engagements st) y = Some x"
          then obtain y where y: "map_of (engagements st) y = Some x" ..
          with nc swap(1) have "y \<noteq> ?q" by auto
          with y show ?thesis by (auto simp: eng)
        next
          assume "map_of (proposer_index st) x = Some (length (prefs_of prefs x))"
          then show ?thesis using False by (simp add: idx)
        qed
      qed
      show "\<exists>p' r r'. map_of (engagements st') (prefs_of prefs x ! j) = Some p' \<and>
               list_index (prefs_of prefs (prefs_of prefs x ! j)) p' = Some r' \<and>
               list_index (prefs_of prefs (prefs_of prefs x ! j)) x = Some r \<and> r' \<le> r"
        if "map_of (proposer_index st') x = Some k" "j < k" for x k j
      proof (cases "x = p \<and> j = i")
        case True
        then show ?thesis using r pl by (auto simp: eng)
      next
        case False
        with that st(3) obtain k' where k': "map_of (proposer_index st) x = Some k'" "j < k'"
          by (cases "x = p") (auto simp: idx less_Suc_eq)
        from D(7) [OF k'] obtain p' rr r' where
          o: "map_of (engagements st) (prefs_of prefs x ! j) = Some p'"
            "list_index (prefs_of prefs (prefs_of prefs x ! j)) p' = Some r'"
            "list_index (prefs_of prefs (prefs_of prefs x ! j)) x = Some rr" "r' \<le> rr"
          by blast
        show ?thesis
        proof (cases "prefs_of prefs x ! j = ?q")
          case True
          with o swap(1,2) have "r' = rc" by simp
          with o True r swap(3) show ?thesis by (auto simp: eng)
        next
          case False
          with o show ?thesis by (auto simp: eng)
        qed
      qed
      show "proposals st' = sum_list (map snd (proposer_index st'))" by (rule sum)
      show "distinct (map fst (engagements st'))"
        using D(9) by (simp add: swap(4) distinct_update)
    qed
  next
    case reject
    show ?thesis
    proof (rule gs_invI)
      show "distinct (free_proposers st')" using D(1) reject(5) by simp
      show "set (free_proposers st') \<subseteq> set P" using D(2) reject(5) by simp
      show "map fst (proposer_index st') = P" by (rule keys)
      show "k \<le> length (prefs_of prefs x)" if "map_of (proposer_index st') x = Some k" for x k
        using that by (rule le)
      show "x \<in> set P \<and> x \<notin> set (free_proposers st') \<and>
            (\<exists>k. map_of (proposer_index st') x = Some (Suc k) \<and> k < length (prefs_of prefs x) \<and>
                 prefs_of prefs x ! k = y)"
        if "map_of (engagements st') y = Some x" for y x
      proof -
        from that have e: "map_of (engagements st) y = Some x" by (simp add: reject(4))
        from D(5) [OF e] engaged_ne [OF e] show ?thesis
          by (simp add: idx reject(5))
      qed
      show "(\<exists>y. map_of (engagements st') y = Some x) \<or>
            map_of (proposer_index st') x = Some (length (prefs_of prefs x))"
        if "x \<in> set P" "x \<notin> set (free_proposers st')" for x
      proof -
        from that have nf: "x \<notin> set (free_proposers st)" and "x \<noteq> p"
          by (auto simp: reject(5) st(1))
        with D(6) [OF that(1) nf] show ?thesis by (simp add: idx reject(4))
      qed
      show "\<exists>p' r r'. map_of (engagements st') (prefs_of prefs x ! j) = Some p' \<and>
               list_index (prefs_of prefs (prefs_of prefs x ! j)) p' = Some r' \<and>
               list_index (prefs_of prefs (prefs_of prefs x ! j)) x = Some r \<and> r' \<le> r"
        if "map_of (proposer_index st') x = Some k" "j < k" for x k j
      proof (cases "x = p \<and> j = i")
        case True
        then show ?thesis using r pl reject(1,2,3) by (auto simp: reject(4))
      next
        case False
        with that st(3) obtain k' where k': "map_of (proposer_index st) x = Some k'" "j < k'"
          by (cases "x = p") (auto simp: idx less_Suc_eq)
        from D(7) [OF k'] show ?thesis by (simp add: reject(4))
      qed
      show "proposals st' = sum_list (map snd (proposer_index st'))" by (rule sum)
      show "distinct (map fst (engagements st'))" using D(9) by (simp add: reject(4))
    qed
  qed
qed


lemma gs_step_inv:
  assumes wf: "gs_wf prefs P" and inv: "gs_inv prefs P st"
    and ne: "free_proposers st \<noteq> []"
  shows "\<exists>st'. gs_step prefs st = Inr st' \<and> gs_inv prefs P st'"
proof -
  note D = gs_invD [OF inv]
  note W = gs_wfD [OF wf]
  from ne obtain p rest where fr: "free_proposers st = p # rest"
    by (cases "free_proposers st") auto
  have pP: "p \<in> set P" using D(2) fr by simp
  define l where "l = prefs_of prefs p"
  have l: "map_of prefs p = Some l" using W(2) [OF pP] by (simp add: l_def)
  have "p \<in> fst ` set (proposer_index st)" using D(3) pP by (metis set_map)
  then obtain i where i: "map_of (proposer_index st) p = Some i"
    by (metis map_of_eq_None_iff not_Some_eq)
  show ?thesis
  proof (cases "length l \<le> i")
    case True
    have "gs_step prefs st = Inr (st\<lparr>free_proposers := rest\<rparr>)"
      using fr l i True by (simp add: gs_step_def)
    with gs_inv_exhausted [OF inv fr l i True] show ?thesis by simp
  next
    case False
    then have il: "i < length l" by simp
    let ?q = "l ! i"
    have ql: "?q \<in> set (prefs_of prefs p)" using il by (simp add: l_def)
    define lq where "lq = prefs_of prefs ?q"
    have lq: "map_of prefs ?q = Some lq" using W(3) [OF pP ql] by (simp add: lq_def)
    obtain r where r: "list_index lq p = Some r"
      using W(3) [OF pP ql] list_index_mem [of p lq] by (auto simp: lq_def)
    show ?thesis
    proof (cases "map_of (engagements st) ?q")
      case None
      let ?st' = "st\<lparr>proposer_index := AList.update p (i + 1) (proposer_index st),
                 proposals := proposals st + 1,
                 engagements := AList.update ?q p (engagements st),
                 free_proposers := rest\<rparr>"
      have "gs_step prefs st = Inr ?st'"
        using fr l i il None by (simp add: gs_step_def Let_def)
      moreover have "gs_inv prefs P ?st'"
        by (rule gs_inv_propose [OF wf inv fr l i il]) (use None in simp_all)
      ultimately show ?thesis by blast
    next
      case (Some cur)
      from D(5) [OF Some] obtain k where cP: "cur \<in> set P"
        and k: "k < length (prefs_of prefs cur)" "prefs_of prefs cur ! k = ?q"
        by blast
      from nth_mem [OF k(1)] k(2) have "?q \<in> set (prefs_of prefs cur)" by simp
      from W(3) [OF cP this] obtain rc where rc: "list_index lq cur = Some rc"
        using list_index_mem [of cur lq] by (auto simp: lq_def)
      show ?thesis
      proof (cases "r < rc")
        case True
        let ?st' = "st\<lparr>proposer_index := AList.update p (i + 1) (proposer_index st),
                 proposals := proposals st + 1,
                 engagements := AList.update ?q p (engagements st),
                 free_proposers := rest @ [cur]\<rparr>"
        have "gs_step prefs st = Inr ?st'"
          using fr l i il Some lq r rc True by (simp add: gs_step_def Let_def)
        moreover have "gs_inv prefs P ?st'"
          by (rule gs_inv_propose [OF wf inv fr l i il])
            (use Some r rc True in \<open>simp_all add: lq_def\<close>)
        ultimately show ?thesis by blast
      next
        case False
        let ?st' = "st\<lparr>proposer_index := AList.update p (i + 1) (proposer_index st),
                 proposals := proposals st + 1\<rparr>"
        have "gs_step prefs st = Inr ?st'"
          using fr l i il Some lq r rc False by (simp add: gs_step_def Let_def)
        moreover have "gs_inv prefs P ?st'"
          by (rule gs_inv_propose [OF wf inv fr l i il])
            (use Some r rc False in \<open>simp_all add: lq_def\<close>)
        ultimately show ?thesis by blast
      qed
    qed
  qed
qed

lemma gs_loop_inv:
  assumes "gs_wf prefs P" and "gs_inv prefs P st"
  shows "\<exists>st'. gs_loop prefs st = Inr st' \<and> gs_inv prefs P st' \<and> free_proposers st' = []"
  using assms
proof (induction prefs st rule: gs_loop.induct)
  case (1 prefs st)
  show ?case
  proof (cases "free_proposers st = []")
    case True
    then show ?thesis using "1.prems" by (subst gs_loop.simps) simp
  next
    case False
    from gs_step_inv [OF "1.prems" False] obtain st1 where
      s: "gs_step prefs st = Inr st1" "gs_inv prefs P st1" by blast
    from "1.IH" [OF False s(1) "1.prems"(1) s(2)] show ?thesis
      using False s(1) by (subst gs_loop.simps) simp
  qed
qed

lemma map_of_foldl_update:
  "map_of (foldl (\<lambda>d e. AList.update (k e) (v e) d) d0 es) x
     = (case find (\<lambda>e. k e = x) (rev es) of None \<Rightarrow> map_of d0 x | Some e \<Rightarrow> Some (v e))"
  by (induction es arbitrary: d0 rule: rev_induct) (auto simp: update_conv')

lemma keys_foldl_update_fresh:
  "distinct (map k es) \<Longrightarrow> map fst (foldl (\<lambda>d e. AList.update (k e) (v e) d) [] es) = map k es"
proof (induction es rule: rev_induct)
  case Nil
  then show ?case by simp
next
  case (snoc e es)
  then show ?case by (auto simp: update_keys)
qed

lemma gs_inv_initial:
  assumes "distinct (map ent_id entities_a)"
  shows "gs_inv prefs (map ent_id entities_a) (gs_initial_state entities_a)"
proof (rule gs_invI)
  let ?st = "gs_initial_state entities_a"
  have idx: "map_of (proposer_index ?st) p = Some i \<Longrightarrow> i = 0" for p i
    by (auto simp: gs_initial_state_def Let_def map_of_foldl_update [where k = "\<lambda>x. x"]
          split: option.splits)
  show "distinct (free_proposers ?st)" using assms by (simp add: gs_initial_state_def Let_def)
  show "set (free_proposers ?st) \<subseteq> set (map ent_id entities_a)"
    by (simp add: gs_initial_state_def Let_def)
  show "map fst (proposer_index ?st) = map ent_id entities_a"
    using keys_foldl_update_fresh [of "\<lambda>x. x" "map ent_id entities_a" "\<lambda>x. 0"] assms
    by (simp add: gs_initial_state_def Let_def)
  show "i \<le> length (prefs_of prefs p)" if "map_of (proposer_index ?st) p = Some i" for p i
    using idx [OF that] by simp
  show "p \<in> set (map ent_id entities_a) \<and> p \<notin> set (free_proposers ?st) \<and>
        (\<exists>i. map_of (proposer_index ?st) p = Some (Suc i) \<and> i < length (prefs_of prefs p) \<and>
             prefs_of prefs p ! i = q)"
    if "map_of (engagements ?st) q = Some p" for q p
    using that by (simp add: gs_initial_state_def Let_def)
  show "(\<exists>q. map_of (engagements ?st) q = Some p) \<or>
        map_of (proposer_index ?st) p = Some (length (prefs_of prefs p))"
    if "p \<in> set (map ent_id entities_a)" "p \<notin> set (free_proposers ?st)" for p
    using that by (simp add: gs_initial_state_def Let_def)
  show "\<exists>p' r r'. map_of (engagements ?st) (prefs_of prefs p ! j) = Some p' \<and>
           list_index (prefs_of prefs (prefs_of prefs p ! j)) p' = Some r' \<and>
           list_index (prefs_of prefs (prefs_of prefs p ! j)) p = Some r \<and> r' \<le> r"
    if "map_of (proposer_index ?st) p = Some i" "j < i" for p i j
    using idx [OF that(1)] that(2) by simp
  have upd0: "\<forall>x \<in> set (AList.update a (0::nat) d). snd x = 0"
    if "\<forall>x \<in> set d. snd x = 0" for d :: "(string \<times> nat) list" and a
    using that by (induction d) auto
  have "\<forall>x \<in> set (foldl (\<lambda>d pid. AList.update pid (0::nat) d) d0 ps). snd x = 0"
    if "\<forall>x \<in> set d0. snd x = 0" for d0 :: "(string \<times> nat) list" and ps
    using that
  proof (induction ps arbitrary: d0)
    case Nil
    then show ?case by simp
  next
    case (Cons a ps)
    from Cons.IH [OF upd0 [OF Cons.prems]] show ?case by simp
  qed
  from this [of "[]" "map ent_id entities_a"]
  have "sum_list (map snd (proposer_index ?st)) = 0"
    by (simp add: gs_initial_state_def Let_def)
  then show "proposals ?st = sum_list (map snd (proposer_index ?st))"
    by (simp add: gs_initial_state_def Let_def)
  show "distinct (map fst (engagements ?st))" by (simp add: gs_initial_state_def Let_def)
qed


lemma preference_list_set: "set (preference_list e others c) = ent_id ` set others"
  by (auto simp: preference_list_def Let_def image_iff)

lemma preference_list_distinct:
  assumes "distinct (map ent_id others)"
  shows "distinct (preference_list e others c)"
proof -
  let ?xs = "map (\<lambda>other. (ent_id other, gs_calculate_similarity e other c)) others"
  have "distinct (map fst ?xs)" using assms by (simp add: comp_def)
  then have "distinct ?xs \<and> inj_on fst (set ?xs)" by (simp only: distinct_map)
  then have "distinct (map fst (sort_key (\<lambda>x. - snd x) ?xs))"
    by (simp only: distinct_map distinct_sort set_sort)
  then show ?thesis by (simp add: preference_list_def Let_def)
qed

lemma find_rev_distinct:
  "distinct (map k es) \<Longrightarrow> e \<in> set es \<Longrightarrow> find (\<lambda>x. k x = k e) (rev es) = Some e"
proof (induction es rule: rev_induct)
  case Nil
  then show ?case by simp
next
  case (snoc a es)
  then show ?case by (auto simp: image_iff)
qed

lemma build_preference_lists_a:
  assumes "distinct (map ent_id (entities_a @ entities_b))" and "a \<in> set entities_a"
  shows "map_of (build_preference_lists entities_a entities_b c) (ent_id a)
           = Some (preference_list a entities_b c)"
proof -
  have "find (\<lambda>e. ent_id e = ent_id a) (rev entities_b) = None"
    using assms by (auto simp: find_None_iff)
  moreover have "find (\<lambda>e. ent_id e = ent_id a) (rev entities_a) = Some a"
    using assms by (intro find_rev_distinct) auto
  ultimately show ?thesis
    by (simp add: build_preference_lists_def Let_def map_of_foldl_update)
qed

lemma build_preference_lists_b:
  assumes "distinct (map ent_id entities_b)" and "b \<in> set entities_b"
  shows "map_of (build_preference_lists entities_a entities_b c) (ent_id b)
           = Some (preference_list b entities_a c)"
proof -
  have "find (\<lambda>e. ent_id e = ent_id b) (rev entities_b) = Some b"
    using assms by (intro find_rev_distinct) auto
  then show ?thesis
    by (simp add: build_preference_lists_def Let_def map_of_foldl_update)
qed

lemma build_preference_lists_only_a:
  assumes "distinct (map ent_id entities_a)" and "a \<in> set entities_a"
    and "ent_id a \<notin> ent_id ` set entities_b"
  shows "map_of (build_preference_lists entities_a entities_b c) (ent_id a)
           = Some (preference_list a entities_b c)"
proof -
  have "find (\<lambda>e. ent_id e = ent_id a) (rev entities_b) = None"
    using assms(3) by (auto simp: find_None_iff image_iff)
  moreover have "find (\<lambda>e. ent_id e = ent_id a) (rev entities_a) = Some a"
    using assms(1,2) by (intro find_rev_distinct) auto
  ultimately show ?thesis
    by (simp add: build_preference_lists_def Let_def map_of_foldl_update)
qed

text \<open>
  The dict of preference lists has one entry per id: the list of an id of side B ranks
  the ids of side A, also when the id occurs on side A as well (the second loop
  overwrites the entry of the first); the list of any other id of side A ranks the ids
  of side B.
\<close>

lemma build_preference_lists_entry:
  assumes da: "distinct (map ent_id entities_a)" and db: "distinct (map ent_id entities_b)"
    and x: "x \<in> ent_id ` set entities_a \<union> ent_id ` set entities_b"
  shows "\<exists>l. map_of (build_preference_lists entities_a entities_b c) x = Some l \<and>
           distinct l \<and>
           set l = (if x \<in> ent_id ` set entities_b then ent_id ` set entities_a
                    else ent_id ` set entities_b)"
proof (cases "x \<in> ent_id ` set entities_b")
  case True
  then obtain b where b: "b \<in> set entities_b" "x = ent_id b" by auto
  from build_preference_lists_b [OF db b(1), of entities_a c] True
  show ?thesis
    using preference_list_distinct [OF da, of b c]
    by (simp add: b(2) preference_list_set)
next
  case False
  with x obtain a where a: "a \<in> set entities_a" "x = ent_id a" by auto
  from build_preference_lists_only_a [OF da a(1), of entities_b c] False
  show ?thesis
    using preference_list_distinct [OF db, of a c]
    by (simp add: a(2) preference_list_set)
qed

lemma gs_wf_build:
  assumes da: "distinct (map ent_id entities_a)" and db: "distinct (map ent_id entities_b)"
  shows "gs_wf (build_preference_lists entities_a entities_b c) (map ent_id entities_a)"
  unfolding gs_wf_def
proof (intro conjI ballI)
  show "distinct (map ent_id entities_a)" by (rule da)
next
  let ?prefs = "build_preference_lists entities_a entities_b c"
  let ?A = "ent_id ` set entities_a" and ?B = "ent_id ` set entities_b"
  fix p assume "p \<in> set (map ent_id entities_a)"
  then have p: "p \<in> ?A" by simp
  from build_preference_lists_entry [OF da db, of p c] p obtain l where
    l: "map_of ?prefs p = Some l" "distinct l" "set l = (if p \<in> ?B then ?A else ?B)"
    by blast
  have "\<exists>lq. map_of ?prefs q = Some lq \<and> p \<in> set lq" if "q \<in> set l" for q
  proof -
    from that l(3) have q: "q \<in> ?A \<union> ?B" by (auto split: if_splits)
    from build_preference_lists_entry [OF da db q, of c] obtain lq where
      lq: "map_of ?prefs q = Some lq" "set lq = (if q \<in> ?B then ?A else ?B)"
      by blast
    have "p \<in> set lq"
    proof (cases "q \<in> ?B")
      case True
      then show ?thesis using lq(2) p by simp
    next
      case False
      with that l(3) have "p \<in> ?B" by (auto split: if_splits)
      with False show ?thesis using lq(2) by simp
    qed
    with lq(1) show ?thesis by blast
  qed
  with l show "\<exists>l. map_of ?prefs p = Some l \<and> distinct l \<and>
                 (\<forall>q \<in> set l. \<exists>lq. map_of ?prefs q = Some lq \<and> p \<in> set lq)"
    by blast
qed

lemma gs_converged_inv:
  assumes da: "distinct (map ent_id entities_a)" and db: "distinct (map ent_id entities_b)"
  shows "\<exists>st. gs_converged entities_a entities_b c = Inr st \<and>
           gs_inv (build_preference_lists entities_a entities_b c)
             (map ent_id entities_a) st \<and>
           free_proposers st = []"
  unfolding gs_converged_def
  by (rule gs_loop_inv [OF gs_wf_build [OF da db] gs_inv_initial [OF da]])

lemma gs_crossD:
  assumes "gs_cross prefs st"
    and "map_of (proposer_index st) u = Some i" "map_of (proposer_index st) z = Some iz"
    and "j < i" "k < iz" "prefs_of prefs u ! j = z" "prefs_of prefs z ! k = u"
  shows "i = Suc j" "iz = Suc k"
  using assms unfolding gs_cross_def by blast+

lemma nth_same:
  "distinct l \<Longrightarrow> a < length l \<Longrightarrow> b < length l \<Longrightarrow> l ! a = x \<Longrightarrow> l ! b = x \<Longrightarrow> a = b"
  by (auto simp: nth_eq_iff_index_eq)

lemma gs_inv_index_mem:
  assumes "gs_inv prefs P st" and "map_of (proposer_index st) p = Some i"
  shows "p \<in> set P"
proof -
  from assms(2) have "p \<in> fst ` set (proposer_index st)"
    by (meson domI domIff map_of_eq_None_iff)
  then show ?thesis using gs_invD(3) [OF assms(1)] by (metis set_map)
qed

lemma gs_inv_proposed:
  assumes inv: "gs_inv prefs P st"
    and ip: "map_of (proposer_index st) p = Some i" and ji: "j < i"
  shows "\<exists>d rd k. map_of (engagements st) (prefs_of prefs p ! j) = Some d \<and>
           rd < length (prefs_of prefs (prefs_of prefs p ! j)) \<and>
           prefs_of prefs (prefs_of prefs p ! j) ! rd = d \<and>
           k < length (prefs_of prefs (prefs_of prefs p ! j)) \<and>
           prefs_of prefs (prefs_of prefs p ! j) ! k = p \<and> rd \<le> k"
proof -
  from gs_invD(7) [OF inv ip ji] obtain d r r' where
    d: "map_of (engagements st) (prefs_of prefs p ! j) = Some d"
      "list_index (prefs_of prefs (prefs_of prefs p ! j)) d = Some r'"
      "list_index (prefs_of prefs (prefs_of prefs p ! j)) p = Some r" "r' \<le> r"
    by blast
  from list_index_Some [OF d(2)] list_index_Some [OF d(3)] d(1,4) show ?thesis by blast
qed

lemma gs_free_no_mutual:
  assumes wf: "gs_wf prefs P" and inv: "gs_inv prefs P st" and cross: "gs_cross prefs st"
    and pf: "p \<in> set (free_proposers st)"
    and ip: "map_of (proposer_index st) p = Some i" and ji: "j < i"
    and iz: "map_of (proposer_index st) (prefs_of prefs p ! j) = Some iz" and kz: "k < iz"
    and bk: "prefs_of prefs (prefs_of prefs p ! j) ! k = p"
  shows False
proof -
  note D = gs_invD [OF inv]
  note W = gs_wfD [OF wf]
  let ?z = "prefs_of prefs p ! j"
  let ?lz = "prefs_of prefs ?z"
  have zP: "?z \<in> set P" using gs_inv_index_mem [OF inv iz] .
  have dz: "distinct ?lz" using W(2) [OF zP] by simp
  from gs_crossD [OF cross ip iz ji kz refl bk] have i: "i = Suc j" and z: "iz = Suc k" .
  have kl: "k < length ?lz" using D(4) [OF iz] kz by simp
  from gs_inv_proposed [OF inv ip ji] obtain d rd k' where
    d: "map_of (engagements st) ?z = Some d" "rd < length ?lz" "?lz ! rd = d"
      "k' < length ?lz" "?lz ! k' = p" "rd \<le> k'"
    by blast
  from nth_same [OF dz d(4) kl d(5) bk] have "k' = k" .
  moreover have "d \<noteq> p" using D(5) [OF d(1)] pf by auto
  ultimately have rk: "rd < k" using d(3,5,6) by (cases "rd = k") auto
  from D(5) [OF d(1)] obtain kd where
    kd: "map_of (proposer_index st) d = Some (Suc kd)" "prefs_of prefs d ! kd = ?z"
    by blast
  have "rd < iz" using rk kz by simp
  from gs_crossD(1) [OF cross iz kd(1) this _ d(3) kd(2)] have "iz = Suc rd" by simp
  with z rk show False by simp
qed

lemma gs_cross_propose:
  assumes wf: "gs_wf prefs P" and inv: "gs_inv prefs P st" and cross: "gs_cross prefs st"
    and fr: "free_proposers st = p # rest"
    and ip: "map_of (proposer_index st) p = Some i" and il: "i < length (prefs_of prefs p)"
    and idx': "proposer_index st' = AList.update p (Suc i) (proposer_index st)"
  shows "gs_cross prefs st'"
  unfolding gs_cross_def
proof (intro allI impI)
  fix u z iu iz j k
  assume u: "map_of (proposer_index st') u = Some iu"
    and z: "map_of (proposer_index st') z = Some iz"
    and j: "j < iu" and k: "k < iz"
    and uz: "prefs_of prefs u ! j = z" and zu: "prefs_of prefs z ! k = u"
  note D = gs_invD [OF inv]
  note W = gs_wfD [OF wf]
  have idx: "map_of (proposer_index st') x
               = (if x = p then Some (Suc i) else map_of (proposer_index st) x)" for x
    by (simp add: idx' update_conv')
  have pf: "p \<in> set (free_proposers st)" using fr by simp
  have pP: "p \<in> set P" using gs_inv_index_mem [OF inv ip] .
  have dp: "distinct (prefs_of prefs p)" using W(2) [OF pP] by simp
  show "iu = Suc j"
  proof (cases "u = p")
    case True
    with u have iu: "iu = Suc i" by (simp add: idx)
    show ?thesis
    proof (cases "j = i")
      case True
      with iu show ?thesis by simp
    next
      case False
      with j iu have ji: "j < i" by simp
      have "\<exists>iz0. map_of (proposer_index st) z = Some iz0 \<and> k < iz0"
      proof (cases "z = p")
        case zp: True
        with z have "iz = Suc i" by (simp add: idx)
        with k il have "k < length (prefs_of prefs p)" by simp
        moreover have "j < length (prefs_of prefs p)" using ji il by simp
        moreover have "prefs_of prefs p ! k = prefs_of prefs p ! j"
          using uz zu zp True by simp
        ultimately have "k = j" using dp by (auto intro: nth_same)
        with ji ip zp show ?thesis by simp
      next
        case False
        with z k show ?thesis by (simp add: idx)
      qed
      then obtain iz0 where iz0: "map_of (proposer_index st) z = Some iz0" "k < iz0" by blast
      from gs_free_no_mutual [OF wf inv cross pf ip ji, of iz0 k] iz0 uz zu True
      show ?thesis by simp
    qed
  next
    case False
    with u have u0: "map_of (proposer_index st) u = Some iu" by (simp add: idx)
    have uP: "u \<in> set P" using gs_inv_index_mem [OF inv u0] .
    have du: "distinct (prefs_of prefs u)" using W(2) [OF uP] by simp
    show ?thesis
    proof (cases "z = p \<and> k = i")
      case False
      have "\<exists>iz0. map_of (proposer_index st) z = Some iz0 \<and> k < iz0"
      proof (cases "z = p")
        case True
        with z have "iz = Suc i" by (simp add: idx)
        with k False True have "k < i" by simp
        with ip True show ?thesis by simp
      next
        case False
        with z k show ?thesis by (simp add: idx)
      qed
      then obtain iz0 where iz0: "map_of (proposer_index st) z = Some iz0" "k < iz0" by blast
      from gs_crossD(1) [OF cross u0 iz0(1) j iz0(2) uz zu] show ?thesis .
    next
      case True
      then have zp: "z = p" and ki: "k = i" by simp_all
      have pu: "prefs_of prefs p ! i = u" using zu zp ki by simp
      from gs_inv_proposed [OF inv u0 j] uz zp obtain d rd k' where
        d: "map_of (engagements st) p = Some d" "rd < length (prefs_of prefs p)"
          "prefs_of prefs p ! rd = d" "k' < length (prefs_of prefs p)"
          "prefs_of prefs p ! k' = u" "rd \<le> k'"
        by auto
      from nth_same [OF dp d(4) il d(5) pu] have "k' = i" .
      with d(6) have rdi: "rd \<le> i" by simp
      from D(5) [OF d(1)] obtain kd where
        kd: "map_of (proposer_index st) d = Some (Suc kd)" "kd < length (prefs_of prefs d)"
          "prefs_of prefs d ! kd = p"
        by blast
      show ?thesis
      proof (cases "rd = i")
        case True
        with d(3) pu have "d = u" by simp
        with kd u0 have iu: "iu = Suc kd" and "kd < length (prefs_of prefs u)"
          and "prefs_of prefs u ! kd = p"
          by simp_all
        moreover have "j < length (prefs_of prefs u)" using D(4) [OF u0] j by simp
        ultimately have "kd = j" using du uz zp by (auto intro: nth_same)
        with iu show ?thesis by simp
      next
        case False
        with rdi have "rd < i" by simp
        from gs_free_no_mutual [OF wf inv cross pf ip this, of "Suc kd" kd] d(3) kd
        show ?thesis by simp
      qed
    qed
  qed
qed

lemma gs_step_cross:
  assumes wf: "gs_wf prefs P" and inv: "gs_inv prefs P st" and cross: "gs_cross prefs st"
    and step: "gs_step prefs st = Inr st'"
  shows "gs_cross prefs st'"
  using step
proof (cases rule: gs_step_cases)
  case (exhausted p rest l i)
  then show ?thesis using cross by (simp add: gs_cross_def)
next
  case (engage p rest l i)
  from engage(2,4) have "i < length (prefs_of prefs p)" by (simp add: prefs_of_def)
  from gs_cross_propose [OF wf inv cross engage(1,3) this, of st'] engage(6)
  show ?thesis by simp
next
  case (swap p rest l i cur lq r rc)
  from swap(2,4) have "i < length (prefs_of prefs p)" by (simp add: prefs_of_def)
  from gs_cross_propose [OF wf inv cross swap(1,3) this, of st'] swap(10)
  show ?thesis by simp
next
  case (reject p rest l i cur lq r rc)
  from reject(2,4) have "i < length (prefs_of prefs p)" by (simp add: prefs_of_def)
  from gs_cross_propose [OF wf inv cross reject(1,3) this, of st'] reject(10)
  show ?thesis by simp
qed

lemma gs_loop_cross:
  assumes "gs_wf prefs P" and "gs_inv prefs P st" and "gs_cross prefs st"
  shows "\<exists>st'. gs_loop prefs st = Inr st' \<and> gs_inv prefs P st' \<and> gs_cross prefs st' \<and>
           free_proposers st' = []"
  using assms
proof (induction prefs st rule: gs_loop.induct)
  case (1 prefs st)
  show ?case
  proof (cases "free_proposers st = []")
    case True
    then show ?thesis using "1.prems" by (subst gs_loop.simps) simp
  next
    case False
    from gs_step_inv [OF "1.prems"(1,2) False] obtain st1 where
      s: "gs_step prefs st = Inr st1" "gs_inv prefs P st1" by blast
    from gs_step_cross [OF "1.prems" s(1)] have c: "gs_cross prefs st1" .
    from "1.IH" [OF False s(1) "1.prems"(1) s(2) c] show ?thesis
      using False s(1) by (subst gs_loop.simps) simp
  qed
qed

lemma gs_cross_initial: "gs_cross prefs (gs_initial_state entities_a)"
proof -
  have "i = 0" if "map_of (proposer_index (gs_initial_state entities_a)) p = Some i" for p i
    using that
    by (auto simp: gs_initial_state_def Let_def map_of_foldl_update [where k = "\<lambda>x. x"]
          split: option.splits)
  then show ?thesis unfolding gs_cross_def by blast
qed

lemma sum_list_snd_map_of:
  "distinct (map fst xs) \<Longrightarrow>
     sum_list (map snd xs) = (\<Sum>k \<in> set (map fst xs). the (map_of xs k))"
  for xs :: "(string \<times> nat) list"
proof (induction xs)
  case Nil
  then show ?case by simp
next
  case (Cons x xs)
  obtain a b where x: "x = (a, b)" by (cases x)
  from Cons.prems have a: "a \<notin> fst ` set xs" and d: "distinct (map fst xs)"
    by (simp_all add: x)
  have "(\<Sum>k \<in> fst ` set xs. the (map_of (x # xs) k)) = (\<Sum>k \<in> fst ` set xs. the (map_of xs k))"
    using a by (intro sum.cong) (auto simp: x)
  with Cons.IH [OF d] a show ?case by (simp add: x)
qed

lemma gs_proposals_bound:
  assumes wf: "gs_wf prefs P" and inv: "gs_inv prefs P st" and cross: "gs_cross prefs st"
    and dq: "distinct Q"
    and sets: "\<And>p. p \<in> set P \<Longrightarrow>
                 set (prefs_of prefs p) = (if p \<in> set Q then set P else set Q)"
  shows "proposals st \<le> length P * length Q"
proof -
  note D = gs_invD [OF inv]
  note W = gs_wfD [OF wf]
  define f where "f u = the (map_of (proposer_index st) u)" for u
  have fi: "map_of (proposer_index st) u = Some (f u)" if "u \<in> set P" for u
  proof -
    from that D(3) have "u \<in> fst ` set (proposer_index st)" by (metis set_map)
    then obtain i where "map_of (proposer_index st) u = Some i"
      by (metis map_of_eq_None_iff not_Some_eq)
    then show ?thesis by (simp add: f_def)
  qed
  define mutual where
    "mutual u j \<longleftrightarrow> prefs_of prefs u ! j \<in> set P \<and>
       (\<exists>k < f (prefs_of prefs u ! j). prefs_of prefs (prefs_of prefs u ! j) ! k = u)" for u j
  define g where
    "g = (\<lambda>(u, j). if u \<in> set Q then (if mutual u j then (u, u) else (prefs_of prefs u ! j, u))
                   else (u, prefs_of prefs u ! j))"
  let ?S = "SIGMA u:set P. {..<f u}"
  have len: "j < length (prefs_of prefs u)" if "u \<in> set P" "j < f u" for u j
    using D(4) [OF fi [OF that(1)]] that(2) by simp
  have last: "f u = Suc j" if "u \<in> set P" "j < f u" "mutual u j" for u j
  proof -
    from that(3) obtain k where
      k: "prefs_of prefs u ! j \<in> set P" "k < f (prefs_of prefs u ! j)"
        "prefs_of prefs (prefs_of prefs u ! j) ! k = u"
      by (auto simp: mutual_def)
    from gs_crossD(1) [OF cross fi [OF that(1)] fi [OF k(1)] that(2) k(2) refl k(3)]
    show ?thesis .
  qed
  have same: "j = j'" if "u \<in> set P" "j < f u" "j' < f u"
    "prefs_of prefs u ! j = prefs_of prefs u ! j'" for u j j'
    using nth_same [OF _ len [OF that(1,2)] len [OF that(1,3)] that(4) refl] W(2) [OF that(1)]
    by simp
  have mutI: "mutual u j" if "u \<in> set P" "u' \<in> set P" "j' < f u'"
    "prefs_of prefs u ! j = u'" "prefs_of prefs u' ! j' = u" for u j u' j'
    using that by (auto simp: mutual_def)
  have inj: "inj_on g ?S"
  proof (rule inj_onI)
    fix x y assume x: "x \<in> ?S" and y: "y \<in> ?S" and eq: "g x = g y"
    obtain u j where xj: "x = (u, j)" by (cases x)
    obtain u' j' where yj: "y = (u', j')" by (cases y)
    from x xj have u: "u \<in> set P" "j < f u" by simp_all
    from y yj have u': "u' \<in> set P" "j' < f u'" by simp_all
    let ?z = "prefs_of prefs u ! j" and ?z' = "prefs_of prefs u' ! j'"
    have gx: "g x = (if u \<in> set Q then (if mutual u j then (u, u) else (?z, u)) else (u, ?z))"
      by (simp add: g_def xj)
    have gy: "g y = (if u' \<in> set Q then (if mutual u' j' then (u', u') else (?z', u'))
                     else (u', ?z'))"
      by (simp add: g_def yj)
    have "u = u' \<and> j = j'"
    proof (cases "u \<in> set Q")
      case uQ: True
      show ?thesis
      proof (cases "u' \<in> set Q")
        case u'Q: True
        show ?thesis
        proof (cases "mutual u j")
          case m: True
          show ?thesis
          proof (cases "mutual u' j'")
            case True
            with m uQ u'Q eq gx gy have e: "u = u'" by simp
            from last [OF u m] last [OF u' True] e show ?thesis by simp
          next
            case False
            with m uQ u'Q eq gx gy have e: "u' = u" "?z' = u" by auto
            from mutI [OF u'(1) u'(1) u'(2) _ _] e have "mutual u' j'" by simp
            with False show ?thesis by simp
          qed
        next
          case m: False
          show ?thesis
          proof (cases "mutual u' j'")
            case True
            with m uQ u'Q eq gx gy have e: "u = u'" "?z = u" by auto
            from mutI [OF u(1) u(1) u(2) _ _] e have "mutual u j" by simp
            with m show ?thesis by simp
          next
            case False
            with m uQ u'Q eq gx gy have e: "u = u'" "?z = ?z'" by auto
            from same [OF u] u'(2) e show ?thesis by simp
          qed
        qed
      next
        case u'Q: False
        show ?thesis
        proof (cases "mutual u j")
          case True
          with uQ u'Q eq gx gy have "u = u'" by simp
          with uQ u'Q show ?thesis by simp
        next
          case False
          with uQ u'Q eq gx gy have e: "?z = u'" "?z' = u" by auto
          from mutI [OF u(1) u' e] False show ?thesis by simp
        qed
      qed
    next
      case uQ: False
      show ?thesis
      proof (cases "u' \<in> set Q")
        case u'Q: True
        show ?thesis
        proof (cases "mutual u' j'")
          case True
          with uQ u'Q eq gx gy have "u = u'" by simp
          with uQ u'Q show ?thesis by simp
        next
          case False
          with uQ u'Q eq gx gy have e: "?z' = u" "?z = u'" by auto
          from mutI [OF u'(1) u e] False show ?thesis by simp
        qed
      next
        case u'Q: False
        with uQ eq gx gy have e: "u = u'" "?z = ?z'" by auto
        from same [OF u] u'(2) e show ?thesis by simp
      qed
    qed
    then show "x = y" by (simp add: xj yj)
  qed
  have sub: "g ` ?S \<subseteq> set P \<times> set Q"
  proof
    fix y assume "y \<in> g ` ?S"
    then obtain u j where u: "u \<in> set P" "j < f u" and y: "y = g (u, j)" by auto
    from nth_mem [OF len [OF u]] sets [OF u(1)]
    have "prefs_of prefs u ! j \<in> (if u \<in> set Q then set P else set Q)" by simp
    then show "y \<in> set P \<times> set Q" using u(1) by (auto simp: y g_def split: if_splits)
  qed
  have "card ?S = card (g ` ?S)" using inj by (simp add: card_image)
  also have "\<dots> \<le> card (set P \<times> set Q)" by (intro card_mono sub) simp
  also have "\<dots> = length P * length Q"
    using W(1) dq by (simp add: card_cartesian_product distinct_card)
  finally have c: "card ?S \<le> length P * length Q" .
  have "card ?S = (\<Sum>u \<in> set P. f u)" by (subst card_SigmaI) simp_all
  also have "\<dots> = sum_list (map snd (proposer_index st))"
    using sum_list_snd_map_of [of "proposer_index st"] D(3) W(1) by (simp add: f_def)
  finally show ?thesis using c D(8) by simp
qed

lemma gs_converged_cross:
  assumes da: "distinct (map ent_id entities_a)" and db: "distinct (map ent_id entities_b)"
  shows "\<exists>st. gs_converged entities_a entities_b c = Inr st \<and>
           gs_inv (build_preference_lists entities_a entities_b c)
             (map ent_id entities_a) st \<and>
           gs_cross (build_preference_lists entities_a entities_b c) st \<and>
           free_proposers st = []"
  unfolding gs_converged_def
  by (rule gs_loop_cross [OF gs_wf_build [OF da db] gs_inv_initial [OF da] gs_cross_initial])

lemma gs_step_index_mono:
  assumes "gs_step prefs st = Inr st'" and "map_of (proposer_index st) p = Some i"
  shows "\<exists>j\<ge>i. map_of (proposer_index st') p = Some j"
  using assms(1)
  by (cases rule: gs_step_cases) (use assms(2) in \<open>auto simp: update_conv'\<close>)

text \<open>
  C4. For non-empty entity lists whose ids are unique within each side, with \<open>n\<close>
  proposers and \<open>m\<close> acceptors, the deferred-acceptance loop ends without raising, with
  an empty queue, after at most \<open>n * m\<close> proposals; and no iteration of the loop lowers
  the index of a proposer. An id may occur on both sides.
\<close>

theorem gs_terminates_within_nm:
  assumes "entities_a \<noteq> []" and "entities_b \<noteq> []"
    and "distinct (map ent_id entities_a)" and "distinct (map ent_id entities_b)"
  shows "(\<exists>st. gs_converged entities_a entities_b criteria = Inr st \<and>
              free_proposers st = [] \<and>
              proposals st \<le> length entities_a * length entities_b) \<and>
         (\<forall>prefs st st' p i. gs_step prefs st = Inr st' \<longrightarrow>
              map_of (proposer_index st) p = Some i \<longrightarrow>
              (\<exists>j\<ge>i. map_of (proposer_index st') p = Some j))"
proof -
  let ?prefs = "build_preference_lists entities_a entities_b criteria"
  let ?P = "map ent_id entities_a" and ?Q = "map ent_id entities_b"
  from gs_converged_cross [OF assms(3,4)] obtain st where
    st: "gs_converged entities_a entities_b criteria = Inr st"
      "gs_inv ?prefs ?P st" "gs_cross ?prefs st" "free_proposers st = []"
    by blast
  have sets: "set (prefs_of ?prefs p) = (if p \<in> set ?Q then set ?P else set ?Q)"
    if "p \<in> set ?P" for p
    using build_preference_lists_entry [OF assms(3,4), of p criteria] that
    by (auto simp: prefs_of_def)
  from gs_proposals_bound [OF gs_wf_build [OF assms(3,4)] st(2,3) assms(4) sets]
  have "proposals st \<le> length entities_a * length entities_b" by simp
  with st show ?thesis by (blast intro: gs_step_index_mono)
qed

theorem gs_terminates_within_nm_witness:
  "proposals \<lparr>free_proposers = [], engagements = [(''2'', ''2''), (''1'', ''1'')],
             proposer_index = [(''1'', 2), (''2'', 1)], proposals = 3\<rparr>
     \<le> length sh_a * length sh_b"
proof -
  have h1: "sh_a \<noteq> []" and h2: "sh_b \<noteq> []" by (simp_all add: sh_a_def sh_b_def)
  have h3: "distinct (map ent_id sh_a)" and h4: "distinct (map ent_id sh_b)"
    by (simp_all add: sh_a_def sh_b_def Entity_new_def)
  have e: "gs_converged sh_a sh_b ex_c
             = Inr \<lparr>free_proposers = [], engagements = [(''2'', ''2''), (''1'', ''1'')],
                    proposer_index = [(''1'', 2), (''2'', 1)], proposals = 3\<rparr>"
    by code_simp
  from gs_terminates_within_nm [OF h1 h2 h3 h4, of ex_c] show ?thesis
    unfolding e by auto
qed

subsection \<open>Stability of the converged engagements\<close>

lemma partner_of_Some:
  assumes "distinct (map fst engs)" and "partner_of engs p = Some q"
  shows "map_of engs q = Some p"
proof -
  from assms(2) obtain x where x: "find (\<lambda>(q, p'). p' = p) engs = Some x" "fst x = q"
    by (auto simp: partner_of_def)
  from x(1) obtain i where "i < length engs" "engs ! i = x" "snd x = p"
    by (auto simp: find_Some_iff)
  then have "(q, p) \<in> set engs" using x(2) by (metis nth_mem prod.collapse)
  with assms(1) show ?thesis by simp
qed

lemma partner_of_None: "partner_of engs p = None \<Longrightarrow> map_of engs q \<noteq> Some p"
  by (auto simp: partner_of_def find_None_iff dest!: map_of_SomeD)

lemma gs_inv_stable:
  assumes wf: "gs_wf prefs P" and inv: "gs_inv prefs P st"
    and fr: "free_proposers st = []" and pP: "p \<in> set P"
  shows "\<not> blocking_pair prefs (engagements st) p q"
proof
  assume b: "blocking_pair prefs (engagements st) p q"
  note D = gs_invD [OF inv]
  note W = gs_wfD [OF wf]
  let ?l = "prefs_of prefs p"
  have l: "map_of prefs p = Some ?l" "distinct ?l" using W(2) [OF pP] by auto
  from b have ne: "map_of (engagements st) q \<noteq> Some p"
    and pp: "proposer_prefers prefs (engagements st) p q"
    and ap: "acceptor_prefers prefs (engagements st) q p"
    by (auto simp: blocking_pair_def)
  have "\<exists>i j. map_of (proposer_index st) p = Some i \<and> j < i \<and> ?l ! j = q"
  proof (cases "partner_of (engagements st) p")
    case None
    with pp l have "q \<in> set ?l" by (simp add: proposer_prefers_def)
    then obtain j where j: "j < length ?l" "?l ! j = q" by (auto simp: in_set_conv_nth)
    from D(6) [OF pP] fr None have "map_of (proposer_index st) p = Some (length ?l)"
      using partner_of_None [OF None] by auto
    with j show ?thesis by blast
  next
    case (Some q')
    from partner_of_Some [OF D(9) Some] have e: "map_of (engagements st) q' = Some p" .
    from D(5) [OF e] obtain i where
      i: "map_of (proposer_index st) p = Some (Suc i)" "i < length ?l" "?l ! i = q'"
      by blast
    from pp l Some have "ranks_above ?l q q'" by (simp add: proposer_prefers_def)
    then obtain j i' where ji: "list_index ?l q = Some j" "list_index ?l q' = Some i'" "j < i'"
      by (auto simp: ranks_above_def split: option.splits)
    from list_index_nth [OF l(2) i(2)] i(3) ji(2) have "i' = i" by simp
    with ji(3) have "j < Suc i" by simp
    moreover have "?l ! j = q" using list_index_Some [OF ji(1)] by simp
    ultimately show ?thesis using i(1) by blast
  qed
  then obtain i j where ij: "map_of (proposer_index st) p = Some i" "j < i" "?l ! j = q"
    by blast
  from D(7) [OF ij(1,2)] ij(3) obtain p' r r' where
    o: "map_of (engagements st) q = Some p'" "list_index (prefs_of prefs q) p' = Some r'"
      "list_index (prefs_of prefs q) p = Some r" "r' \<le> r"
    by auto
  from D(4) [OF ij(1)] ij(2,3) have "q \<in> set ?l" by (metis nth_mem order_less_le_trans)
  from W(3) [OF pP this] have "map_of prefs q = Some (prefs_of prefs q)" by simp
  with ap o show False by (simp add: acceptor_prefers_def ranks_above_def)
qed

text \<open>
  Under the dict of preference lists as the loop reads it, no proposer blocks the
  converged engagements with any id, for lists whose ids are unique within each side.
  When no id occurs on both sides, the dict entry of an id is the list of the entity
  with that id (\<open>build_preference_lists_a\<close>, \<open>build_preference_lists_b\<close>).
\<close>

lemma gs_converged_dict_stable:
  assumes da: "distinct (map ent_id entities_a)" and db: "distinct (map ent_id entities_b)"
  shows "\<exists>st. gs_converged entities_a entities_b c = Inr st \<and>
           (\<forall>p \<in> set (map ent_id entities_a). \<forall>q.
              \<not> blocking_pair (build_preference_lists entities_a entities_b c)
                  (engagements st) p q)"
proof -
  from gs_converged_inv [OF da db] obtain st where
    st: "gs_converged entities_a entities_b c = Inr st"
      "gs_inv (build_preference_lists entities_a entities_b c) (map ent_id entities_a) st"
      "free_proposers st = []"
    by blast
  show ?thesis
    using st(1) gs_inv_stable [OF gs_wf_build [OF da db] st(2,3)] by blast
qed

text \<open>
  C2. Two users with ids 1 and 2 (\<open>x\<close> = 0 and 100) and two items with ids 1 and 2
  (\<open>x\<close> = 100 and 90), ids unique within each side: the second loop of \<open>match\<close>
  overwrites the dict entries of the two users with the lists of the two items, and the
  loop converges to user 1 with item 1 and user 2 with item 2. User 2 scores item 1 at 1
  and its partner item 2 at 9/10; item 1 scores user 2 at 1 and its partner user 1 at 0:
  under the preference list of user 2 over the items and that of item 1 over the users,
  user 2 and item 1 block the converged engagements.
\<close>

theorem shared_ids_blocking_pair:
  "distinct (map ent_id sh_a) \<and> distinct (map ent_id sh_b) \<and>
   build_preference_lists sh_a sh_b ex_c = [(''1'', [''2'', ''1'']), (''2'', [''2'', ''1''])] \<and>
   gs_converged sh_a sh_b ex_c
     = Inr \<lparr>free_proposers = [], engagements = [(''2'', ''2''), (''1'', ''1'')],
            proposer_index = [(''1'', 2), (''2'', 1)], proposals = 3\<rparr> \<and>
   gs_calculate_similarity (Entity_new ''2'' USER [(''x'', PNum 100)])
     (Entity_new ''1'' ITEM [(''x'', PNum 100)]) ex_c = 1 \<and>
   gs_calculate_similarity (Entity_new ''2'' USER [(''x'', PNum 100)])
     (Entity_new ''2'' ITEM [(''x'', PNum 90)]) ex_c = 9 / 10 \<and>
   gs_calculate_similarity (Entity_new ''1'' USER [(''x'', PNum 0)])
     (Entity_new ''1'' ITEM [(''x'', PNum 100)]) ex_c = 0 \<and>
   preference_list (Entity_new ''2'' USER [(''x'', PNum 100)]) sh_b ex_c = [''1'', ''2''] \<and>
   preference_list (Entity_new ''1'' ITEM [(''x'', PNum 100)]) sh_a ex_c = [''2'', ''1''] \<and>
   blocking_pair
     [(''2'', preference_list (Entity_new ''2'' USER [(''x'', PNum 100)]) sh_b ex_c),
      (''1'', preference_list (Entity_new ''1'' ITEM [(''x'', PNum 100)]) sh_a ex_c)]
     [(''2'', ''2''), (''1'', ''1'')] ''2'' ''1''"
  by code_simp

theorem shared_ids_blocking_pair_witness:
  "blocking_pair
     [(''2'', preference_list (Entity_new ''2'' USER [(''x'', PNum 100)]) sh_b ex_c),
      (''1'', preference_list (Entity_new ''1'' ITEM [(''x'', PNum 100)]) sh_a ex_c)]
     [(''2'', ''2''), (''1'', ''1'')] ''2'' ''1''"
  using shared_ids_blocking_pair by blast

subsection \<open>Where the minimum score is applied\<close>

lemma gs_build_matches_filter:
  assumes "\<forall>(q, p) \<in> set engs. map_of em p \<noteq> None \<and> map_of em q \<noteq> None"
  shows "\<exists>tot'. gs_build_matches em c engs (ms, tot)
           = Inr (ms @ map (gs_mk_match c em)
                         (filter (\<lambda>qp. score (gs_mk_match c em qp) \<ge> min_score c) engs), tot')"
  using assms
proof (induction engs arbitrary: ms tot)
  case Nil
  then show ?case by simp
next
  case (Cons qp engs)
  obtain q p where qp: "qp = (q, p)" by (cases qp)
  from Cons.prems obtain ea eb where e: "map_of em p = Some ea" "map_of em q = Some eb"
    by (auto simp: qp)
  have rest: "\<forall>(q, p) \<in> set engs. map_of em p \<noteq> None \<and> map_of em q \<noteq> None"
    using Cons.prems by simp
  show ?case
  proof (cases "gs_calculate_similarity ea eb c \<ge> min_score c")
    case True
    from Cons.IH [OF rest, of "ms @ [gs_mk_match c em (q, p)]" "tot + gs_calculate_similarity ea eb c"]
    show ?thesis using True e by (simp add: qp gs_mk_match_def Let_def)
  next
    case False
    from Cons.IH [OF rest, of ms tot]
    show ?thesis using False e by (simp add: qp gs_mk_match_def Let_def)
  qed
qed

lemma entity_map_lookup:
  assumes "distinct (map ent_id es)" and "e \<in> set es"
  shows "map_of (foldl (\<lambda>d e. AList.update (ent_id e) e d) [] es) (ent_id e) = Some e"
  using find_rev_distinct [OF assms]
  by (simp add: map_of_foldl_update [where k = ent_id and v = "\<lambda>e. e"])

lemma sorted_key_ranks:
  fixes f :: "'a \<Rightarrow> real" and g :: "'a \<Rightarrow> string"
  assumes s: "sorted (map f xs)" and d: "distinct (map g xs)"
    and x: "x \<in> set xs" and y: "y \<in> set xs" and lt: "f x < f y"
  shows "ranks_above (map g xs) (g x) (g y)"
proof -
  from x obtain i where i: "i < length xs" "xs ! i = x" by (auto simp: in_set_conv_nth)
  from y obtain j where j: "j < length xs" "xs ! j = y" by (auto simp: in_set_conv_nth)
  have "i < j"
  proof (rule ccontr)
    assume "\<not> i < j"
    then have "j \<le> i" by simp
    with s i(1) have "map f xs ! j \<le> map f xs ! i" by (intro sorted_nth_mono) auto
    with i j lt show False by simp
  qed
  moreover have "list_index (map g xs) (g x) = Some i"
    using list_index_nth [OF d, of i] i by simp
  moreover have "list_index (map g xs) (g y) = Some j"
    using list_index_nth [OF d, of j] j by simp
  ultimately show ?thesis by (simp add: ranks_above_def)
qed

lemma preference_list_by_raw_score:
  assumes d: "distinct (map ent_id others)"
    and b1: "b1 \<in> set others" and b2: "b2 \<in> set others"
    and gt: "gs_calculate_similarity e b1 c > gs_calculate_similarity e b2 c"
  shows "ranks_above (preference_list e others c) (ent_id b1) (ent_id b2)"
proof -
  let ?sc = "map (\<lambda>other. (ent_id other, gs_calculate_similarity e other c)) others"
  let ?xs = "sort_key (\<lambda>x. - snd x) ?sc"
  have "distinct (map fst ?sc)" using d by (simp add: comp_def)
  then have "distinct ?sc \<and> inj_on fst (set ?sc)" by (simp only: distinct_map)
  then have dx: "distinct (map fst ?xs)" by (simp only: distinct_map distinct_sort set_sort)
  have sx: "sorted (map (\<lambda>x. - snd x) ?xs)" by simp
  have m1: "(ent_id b1, gs_calculate_similarity e b1 c) \<in> set ?xs" using b1 by auto
  have m2: "(ent_id b2, gs_calculate_similarity e b2 c) \<in> set ?xs" using b2 by auto
  from sorted_key_ranks [OF sx dx m1 m2] gt show ?thesis
    by (simp add: preference_list_def Let_def)
qed

lemma gs_similarity_min_score:
  "gs_calculate_similarity a b (c\<lparr>min_score := t\<rparr>) = gs_calculate_similarity a b c"
  by (simp add: gs_calculate_similarity_def gs_scores_def missing_required_def
        calculate_weighted_score_def weights_get_def)

lemma build_preference_lists_min_score:
  "build_preference_lists entities_a entities_b (c\<lparr>min_score := t\<rparr>)
     = build_preference_lists entities_a entities_b c"
  by (simp add: build_preference_lists_def preference_list_def gs_similarity_min_score)

lemma cost_matrix_entry:
  "i < length entities_a \<Longrightarrow> j < length entities_b \<Longrightarrow>
   calculate_cost_matrix entities_a entities_b c ! i ! j
     = - hungarian_calculate_similarity (entities_a ! i) (entities_b ! j) c"
  by (simp add: calculate_cost_matrix_def)

lemma hungarian_threshold:
  "calculate_weighted_score c (hungarian_scores a b c) < min_score c \<Longrightarrow>
   hungarian_calculate_similarity a b c = 0"
  by (simp add: hungarian_calculate_similarity_def Let_def)


lemma gs_mk_match_ids [simp]:
  "entity_a_id (gs_mk_match c em qp) = snd qp" "entity_b_id (gs_mk_match c em qp) = fst qp"
  by (simp_all add: gs_mk_match_def)

lemma gs_match_engaged_pairs:
  assumes ne: "entities_a \<noteq> []" "entities_b \<noteq> []"
    and d: "distinct (map ent_id (entities_a @ entities_b))"
  shows "\<exists>st r. gs_converged entities_a entities_b c = Inr st \<and>
           gs_match entities_a entities_b c = Inr r \<and>
           (\<forall>(q, p) \<in> set (engagements st).
              p \<in> set (map ent_id entities_a) \<and> q \<in> set (map ent_id entities_b)) \<and>
           (\<forall>m \<in> set (matches r). (entity_b_id m, entity_a_id m) \<in> set (engagements st)) \<and>
           (\<forall>a \<in> set entities_a. \<forall>b \<in> set entities_b.
              (ent_id b, ent_id a) \<in> set (engagements st) \<longrightarrow>
                ((\<exists>m \<in> set (matches r). entity_a_id m = ent_id a \<and> entity_b_id m = ent_id b)
                   \<longleftrightarrow> gs_calculate_similarity a b c \<ge> min_score c) \<and>
                (gs_calculate_similarity a b c < min_score c \<longrightarrow>
                   ent_id a \<in> set (unmatched_entities r) \<and>
                   ent_id b \<in> set (unmatched_entities r)))"
proof -
  let ?P = "map ent_id entities_a" and ?Q = "map ent_id entities_b"
  let ?prefs = "build_preference_lists entities_a entities_b c"
  let ?em = "foldl (\<lambda>d e. AList.update (ent_id e) e d) [] (entities_a @ entities_b)"
  have da: "distinct ?P" and db: "distinct ?Q" using d by auto
  from gs_converged_inv [OF da db] obtain st where
    st: "gs_converged entities_a entities_b c = Inr st" "gs_inv ?prefs ?P st"
    by blast
  note D = gs_invD [OF st(2)]
  let ?engs = "engagements st"
  have disj: "set ?P \<inter> set ?Q = {}" using d by auto
  have em: "map_of ?em (ent_id e) = Some e" if "e \<in> set (entities_a @ entities_b)" for e
    using entity_map_lookup [OF d that] .
  have eng_iff: "(q, p) \<in> set ?engs \<longleftrightarrow> map_of ?engs q = Some p" for q p
    using D(9) by simp
  have eng_ids: "p \<in> set ?P \<and> q \<in> set ?Q" if "(q, p) \<in> set ?engs" for q p
  proof -
    from that have e: "map_of ?engs q = Some p" by (simp add: eng_iff)
    from D(5) [OF e] obtain i where
      i: "p \<in> set ?P" "i < length (prefs_of ?prefs p)" "prefs_of ?prefs p ! i = q" by blast
    from i(1) obtain a where a: "a \<in> set entities_a" "p = ent_id a" by auto
    from build_preference_lists_a [OF d a(1), of c]
    have "set (prefs_of ?prefs p) = set ?Q"
      by (simp add: prefs_of_def a(2) preference_list_set)
    with i(2,3) have "q \<in> set ?Q" by (metis nth_mem)
    with i(1) show ?thesis by simp
  qed
  have defined: "\<forall>(q, p) \<in> set ?engs. map_of ?em p \<noteq> None \<and> map_of ?em q \<noteq> None"
  proof (clarify, intro conjI)
    fix q p assume "(q, p) \<in> set ?engs"
    from eng_ids [OF this] obtain a b where
      "a \<in> set entities_a" "p = ent_id a" "b \<in> set entities_b" "q = ent_id b" by auto
    then show "map_of ?em p \<noteq> None" "map_of ?em q \<noteq> None"
      using em [of a] em [of b] by auto
  qed
  let ?keep = "\<lambda>qp. score (gs_mk_match c ?em qp) \<ge> min_score c"
  let ?ms = "map (gs_mk_match c ?em) (filter ?keep ?engs)"
  from gs_build_matches_filter [OF defined, of c "[]" 0] obtain tot where
    bm: "gs_build_matches ?em c ?engs ([], 0) = Inr (?ms, tot)" by auto
  let ?matched = "set (map entity_a_id ?ms) \<union> set (map entity_b_id ?ms)"
  let ?r = "\<lparr>matches = ?ms,
             unmatched_entities = filter (\<lambda>i. i \<notin> ?matched) (map ent_id (entities_a @ entities_b)),
             total_score = tot\<rparr>"
  have "\<not> (entities_a = [] \<or> entities_b = [])" using ne by simp
  then have r: "gs_match entities_a entities_b c = Inr ?r"
    unfolding gs_match_def Let_def
    by (simp only: if_False st(1) sum.case bm prod.case)
  have sc: "score (gs_mk_match c ?em (ent_id b, ent_id a)) = gs_calculate_similarity a b c"
    if "a \<in> set entities_a" "b \<in> set entities_b" for a b
    using em [of a] em [of b] that by (simp add: gs_mk_match_def)
  have a_ids: "set (map entity_a_id ?ms) = snd ` set (filter ?keep ?engs)"
    and b_ids: "set (map entity_b_id ?ms) = fst ` set (filter ?keep ?engs)"
    by (auto simp: image_iff)
  have pairs: "(\<forall>(q, p) \<in> set ?engs. p \<in> set ?P \<and> q \<in> set ?Q)"
    using eng_ids by blast
  have from_eng: "\<forall>m \<in> set (matches ?r). (entity_b_id m, entity_a_id m) \<in> set ?engs"
    by auto
  have main: "((\<exists>m \<in> set (matches ?r). entity_a_id m = ent_id a \<and> entity_b_id m = ent_id b)
                   \<longleftrightarrow> gs_calculate_similarity a b c \<ge> min_score c) \<and>
              (gs_calculate_similarity a b c < min_score c \<longrightarrow>
                   ent_id a \<in> set (unmatched_entities ?r) \<and>
                   ent_id b \<in> set (unmatched_entities ?r))"
    if a: "a \<in> set entities_a" and b: "b \<in> set entities_b"
      and e: "(ent_id b, ent_id a) \<in> set ?engs" for a b
  proof (intro conjI impI)
    have "(\<exists>m \<in> set ?ms. entity_a_id m = ent_id a \<and> entity_b_id m = ent_id b)
            \<longleftrightarrow> (ent_id b, ent_id a) \<in> set (filter ?keep ?engs)"
      by (auto simp: image_iff)
    also have "\<dots> \<longleftrightarrow> gs_calculate_similarity a b c \<ge> min_score c"
      using e sc [OF a b] by simp
    finally show "(\<exists>m \<in> set (matches ?r). entity_a_id m = ent_id a \<and> entity_b_id m = ent_id b)
                   \<longleftrightarrow> gs_calculate_similarity a b c \<ge> min_score c"
      by simp
  next
    assume low: "gs_calculate_similarity a b c < min_score c"
    have notkept: "(ent_id b, ent_id a) \<notin> set (filter ?keep ?engs)"
      using low sc [OF a b] by simp
    have ea: "map_of ?engs (ent_id b) = Some (ent_id a)" using e by (simp add: eng_iff)
    have aP: "ent_id a \<in> set ?P" and bQ: "ent_id b \<in> set ?Q" using a b by auto
    have "ent_id a \<notin> snd ` set (filter ?keep ?engs)"
    proof
      assume "ent_id a \<in> snd ` set (filter ?keep ?engs)"
      then obtain q' where q': "(q', ent_id a) \<in> set (filter ?keep ?engs)" by force
      then have "map_of ?engs q' = Some (ent_id a)" by (simp add: eng_iff)
      from engaged_unique [OF st(2) this ea] q' notkept show False by simp
    qed
    moreover have "ent_id a \<notin> fst ` set (filter ?keep ?engs)"
    proof
      assume "ent_id a \<in> fst ` set (filter ?keep ?engs)"
      then obtain p' where "(ent_id a, p') \<in> set ?engs" by force
      from eng_ids [OF this] aP disj show False by auto
    qed
    moreover have "ent_id b \<notin> snd ` set (filter ?keep ?engs)"
    proof
      assume "ent_id b \<in> snd ` set (filter ?keep ?engs)"
      then obtain q' where "(q', ent_id b) \<in> set ?engs" by force
      from eng_ids [OF this] bQ disj show False by auto
    qed
    moreover have "ent_id b \<notin> fst ` set (filter ?keep ?engs)"
    proof
      assume "ent_id b \<in> fst ` set (filter ?keep ?engs)"
      then obtain p' where p': "(ent_id b, p') \<in> set (filter ?keep ?engs)" by force
      then have "map_of ?engs (ent_id b) = Some p'" by (simp add: eng_iff)
      with ea p' notkept show False by simp
    qed
    ultimately show "ent_id a \<in> set (unmatched_entities ?r)"
      and "ent_id b \<in> set (unmatched_entities ?r)"
      using a b unfolding a_ids b_ids by auto
  qed
  show ?thesis
    apply (rule exI [of _ st], rule exI [of _ ?r])
    apply (intro conjI st(1) r pairs from_eng)
    using main by blast
qed

text \<open>
  C6. One user and one item that both have id 1 (\<open>x\<close> = 0 and 100, threshold 1/2): the
  pair scores 0, below the threshold. The loop engages the two; \<open>entity_map\<close> holds the
  item under id 1 for both members of the pair, so the recomputed score is that of the
  item with itself, 1, and \<open>match\<close> keeps the pair as a Match and reports no unmatched
  id.
\<close>

theorem shared_id_threshold:
  "distinct (map ent_id sh1_a) \<and> distinct (map ent_id sh1_b) \<and>
   gs_calculate_similarity (Entity_new ''1'' USER [(''x'', PNum 0)])
     (Entity_new ''1'' ITEM [(''x'', PNum 100)]) ex_c = 0 \<and>
   min_score ex_c = 1 / 2 \<and>
   gs_converged sh1_a sh1_b ex_c
     = Inr \<lparr>free_proposers = [], engagements = [(''1'', ''1'')],
            proposer_index = [(''1'', 1)], proposals = 1\<rparr> \<and>
   gs_match sh1_a sh1_b ex_c
     = Inr \<lparr>matches =
              [\<lparr>entity_a_id = ''1'', entity_b_id = ''1'', score = 1,
                details = [(''algorithm'', DStr ''Gale-Shapley Algorithm''),
                           (''stable'', DBool True)],
                matched_at = None\<rparr>],
            unmatched_entities = [], total_score = 1\<rparr>"
  by code_simp

theorem shared_id_threshold_witness:
  "gs_calculate_similarity (Entity_new ''1'' USER [(''x'', PNum 0)])
     (Entity_new ''1'' ITEM [(''x'', PNum 100)]) ex_c = 0 \<and>
   min_score ex_c = 1 / 2"
  using shared_id_threshold by blast

subsection \<open>Lists of different lengths in the Optimal Assignment Matcher\<close>

text \<open>
  When the lists differ in length, every perfect assignment of the padded matrix pairs a
  row with a padding column, or a padding row with a column, and so costs \<open>+\<infinity>\<close>:
  the padded problem has no solution of finite cost, whatever the scores are.
\<close>

lemma assignment_cost_infinite:
  "(i, j) \<in> set asg \<Longrightarrow> cm ! i ! j = PInf \<Longrightarrow> assignment_cost cm asg = PInf"
proof (induction asg)
  case Nil
  then show ?case by simp
next
  case (Cons p asg)
  have l: "cost_add PInf x = PInf" and r: "cost_add x PInf = PInf" for x
    by (cases x; simp)+
  from Cons show ?case
    by (cases p) (auto simp: assignment_cost_def l r)
qed

lemma padded_assignment_infinite:
  assumes len: "length cm0 = n" and rows: "\<forall>row \<in> set cm0. length row = m"
    and ne: "n \<noteq> m" and pa: "perfect_assignment (max n m) row_indices col_indices"
  shows "assignment_cost (pad_cost_matrix cm0 n m) (zip row_indices col_indices) = PInf"
proof (cases "m < n")
  case True
  then have N: "max n m = n" and pos: "n - 1 < n" by auto
  from pa N have c: "length row_indices = n" "length col_indices = n"
    "set row_indices = {..<n}" "set col_indices = {..<n}"
    by (auto simp: perfect_assignment_def)
  from c(4) pos have "n - 1 \<in> set col_indices" by simp
  then obtain k where k: "k < n" "col_indices ! k = n - 1"
    using c(2) by (auto simp: in_set_conv_nth)
  let ?i = "row_indices ! k"
  have i: "?i < n" using c(1,3) k(1) by (metis lessThan_iff nth_mem)
  have mem: "(?i, n - 1) \<in> set (zip row_indices col_indices)"
    using k c(1,2) by (auto simp: in_set_zip)
  have "length (cm0 ! ?i) = m" using rows len i by simp
  then have "pad_cost_matrix cm0 n m ! ?i ! (n - 1) = PInf"
    using True len i by (simp add: pad_cost_matrix_def nth_append)
  with mem show ?thesis by (rule assignment_cost_infinite)
next
  case False
  with ne have lt: "n < m" by simp
  then have N: "max n m = m" and pos: "m - 1 < m" by auto
  from pa N have c: "length row_indices = m" "length col_indices = m"
    "set row_indices = {..<m}" "set col_indices = {..<m}"
    by (auto simp: perfect_assignment_def)
  from c(3) pos have "m - 1 \<in> set row_indices" by simp
  then obtain k where k: "k < m" "row_indices ! k = m - 1"
    using c(1) by (auto simp: in_set_conv_nth)
  let ?j = "col_indices ! k"
  have j: "?j < m" using c(2,4) k(1) by (metis lessThan_iff nth_mem)
  have mem: "(m - 1, ?j) \<in> set (zip row_indices col_indices)"
    using k c(1,2) by (auto simp: in_set_zip)
  have "pad_cost_matrix cm0 n m ! (m - 1) ! ?j = PInf"
    using lt len j by (simp add: pad_cost_matrix_def nth_append)
  with mem show ?thesis by (rule assignment_cost_infinite)
qed

lemma hungarian_padding_infeasible:
  assumes "length entities_a \<noteq> length entities_b"
    and "perfect_assignment (max (length entities_a) (length entities_b)) row_indices col_indices"
  shows "assignment_cost
           (pad_cost_matrix (calculate_cost_matrix entities_a entities_b c)
              (length entities_a) (length entities_b))
           (zip row_indices col_indices) = PInf"
  by (rule padded_assignment_infinite [OF _ _ assms]) (auto simp: calculate_cost_matrix_def)

text \<open>
  C3. Three entities against one (scores 3/5, 17/20 and 99/100, threshold 1/2): all six
  perfect assignments of the padded matrix cost \<open>+\<infinity>\<close>. With a solver that raises on
  such a matrix \<open>match\<close> raises; with a solver that returns the identity, which is a
  minimum-cost perfect assignment, the second and third entity sit on padding columns and
  \<open>match\<close> returns the pair of score 3/5, not the best pair.
\<close>

theorem size_mismatch_three_one:
  "ex_padded = [[Fin (- (3 / 5)), PInf, PInf], [Fin (- (17 / 20)), PInf, PInf],
                [Fin (- (99 / 100)), PInf, PInf]] \<and>
   map (\<lambda>p. assignment_cost ex_padded (zip [0, 1, 2] p)) (perms [0, 1, 2])
     = [PInf, PInf, PInf, PInf, PInf, PInf] \<and>
   hungarian_match (\<lambda>cm. Inl ValueError) ex3_a ex1_b ex_c = Inl ValueError \<and>
   lsa_optimal ex_padded [0, 1, 2] [0, 1, 2] \<and>
   hungarian_match (\<lambda>cm. Inr ([0, 1, 2], [0, 1, 2])) ex3_a ex1_b ex_c
     = Inr \<lparr>matches =
              [\<lparr>entity_a_id = ''a0'', entity_b_id = ''b0'', score = 3 / 5,
                details = [(''algorithm'', DStr ''Hungarian Algorithm''),
                           (''entity_a_type'', DStr ''mentor''),
                           (''entity_b_type'', DStr ''mentee'')],
                matched_at = None\<rparr>],
            unmatched_entities = [''a1'', ''a2''], total_score = 3 / 5\<rparr>"
  by code_simp


theorem size_mismatch_three_one_witness:
  "hungarian_match (\<lambda>cm. Inl ValueError) ex3_a ex1_b ex_c = Inl ValueError \<and>
   lsa_optimal ex_padded [0, 1, 2] [0, 1, 2]"
  using size_mismatch_three_one by blast

text \<open>
  C1. Two entities against one (scores 3/5 and 17/20, threshold 1/2): the identity is a
  minimum-cost perfect assignment of the padded matrix, and with it \<open>match\<close> returns total
  score 3/5, while pairing the second entity scores 17/20; a solver that raises makes
  \<open>match\<close> raise.
\<close>

theorem size_mismatch_not_optimal:
  "ex_padded2 = [[Fin (- (3 / 5)), PInf], [Fin (- (17 / 20)), PInf]] \<and>
   lsa_optimal ex_padded2 [0, 1] [0, 1] \<and>
   hungarian_match (\<lambda>cm. Inr ([0, 1], [0, 1])) ex_a ex1_b ex_c
     = Inr \<lparr>matches =
              [\<lparr>entity_a_id = ''a0'', entity_b_id = ''b0'', score = 3 / 5,
                details = [(''algorithm'', DStr ''Hungarian Algorithm''),
                           (''entity_a_type'', DStr ''mentor''),
                           (''entity_b_type'', DStr ''mentee'')],
                matched_at = None\<rparr>],
            unmatched_entities = [''a1''], total_score = 3 / 5\<rparr> \<and>
   hungarian_calculate_similarity (ex_a ! 1) (ex1_b ! 0) ex_c = 17 / 20 \<and>
   min_score ex_c \<le> 17 / 20 \<and>
   hungarian_match (\<lambda>cm. Inl ValueError) ex_a ex1_b ex_c = Inl ValueError"
  by code_simp

theorem size_mismatch_not_optimal_witness:
  "hungarian_match (\<lambda>cm. Inl ValueError) ex_a ex1_b ex_c = Inl ValueError \<and>
   lsa_optimal ex_padded2 [0, 1] [0, 1]"
  using size_mismatch_not_optimal by blast

end
